theory Spec2Isabelle
  imports Complex_Main
begin

section \<open>The state of \<^verbatim>\<open>callback_newnode.ipynb\<close>\<close>

type_synonym dict = "int \<rightharpoonup> int"

record graph =
  g_nodes :: "int set"
  g_pos :: "int \<rightharpoonup> real \<times> int"
  g_adj :: "(int \<times> int) set"

definition Graph :: graph where
  "Graph = \<lparr>g_nodes = {}, g_pos = Map.empty, g_adj = {}\<rparr>"

definition add_node :: "graph \<Rightarrow> int \<Rightarrow> real \<times> int \<Rightarrow> graph" where
  "add_node G n xy = G\<lparr>g_nodes := insert n (g_nodes G), g_pos := (g_pos G)(n \<mapsto> xy)\<rparr>"

definition add_edge :: "graph \<Rightarrow> int \<Rightarrow> int \<Rightarrow> graph" where
  "add_edge G u v =
     G\<lparr>g_nodes := insert u (insert v (g_nodes G)),
       g_adj := insert (u, v) (insert (v, u) (g_adj G))\<rparr>"

record problem =
  matrix_file :: "string option"
  cbnewnode :: "string list"
  maxnode :: "int option"
  threads :: "int option"

record globals =
  T :: graph
  card_subtree :: dict
  pos :: "int \<rightharpoonup> real \<times> int"
  left :: dict
  right :: dict
  nodes :: dict
  p :: problem

definition len :: "('k \<rightharpoonup> 'v) \<Rightarrow> int" where
  "len d = int (card (dom d))"

definition storeBBnode :: "problem \<Rightarrow> graph \<Rightarrow> int \<Rightarrow> int \<Rightarrow> int \<Rightarrow> globals \<Rightarrow> unit \<times> globals" where
  "storeBBnode prob Tree parent newnode branch s =
     (let s1 = s\<lparr>nodes := (nodes s)(newnode \<mapsto> len (nodes s) + 1)\<rparr>
      in if branch = 0
         then ((), s1\<lparr>left := (left s1)(parent \<mapsto> newnode)\<rparr>)
         else ((), s1\<lparr>right := (right s1)(parent \<mapsto> newnode)\<rparr>))"

datatype py_error = KeyError | ZeroDivisionError

definition add_card :: "int \<Rightarrow> int \<Rightarrow> py_error + globals \<Rightarrow> py_error + int \<times> globals" where
  "add_card card0 child res =
     (case res of
        Inl e \<Rightarrow> Inl e
      | Inr s \<Rightarrow> (case card_subtree s child of
                    None \<Rightarrow> Inl KeyError
                  | Some c \<Rightarrow> Inr (card0 + c, s)))"

partial_function (option) postorder_count :: "int \<Rightarrow> globals \<Rightarrow> (py_error + globals) option" where
  "postorder_count node s =
     Option.bind
       (case left s node of
          None \<Rightarrow> Some (Inr (0, s))
        | Some l \<Rightarrow> Option.bind (postorder_count l s) (\<lambda>res. Some (add_card 0 l res)))
       (\<lambda>res1. case res1 of
          Inl e \<Rightarrow> Some (Inl e)
        | Inr (card1, s1) \<Rightarrow>
            Option.bind
              (case right s1 node of
                 None \<Rightarrow> Some (Inr (card1, s1))
               | Some r \<Rightarrow> Option.bind (postorder_count r s1) (\<lambda>res. Some (add_card card1 r res)))
              (\<lambda>res2. case res2 of
                 Inl e \<Rightarrow> Some (Inl e)
               | Inr (card2, s2) \<Rightarrow>
                   Some (Inr (s2\<lparr>card_subtree := (card_subtree s2)(node \<mapsto> 1 + card2)\<rparr>))))"


definition init_globals :: globals where
  "init_globals =
     \<lparr>T = Graph, card_subtree = Map.empty, pos = Map.empty,
      left = Map.empty, right = Map.empty, nodes = [1 \<mapsto> 1],
      p = \<lparr>matrix_file = None, cbnewnode = [], maxnode = None, threads = None\<rparr>\<rparr>"

fun newnode_events :: "(int \<times> int \<times> int) list \<Rightarrow> globals \<Rightarrow> globals" where
  "newnode_events [] s = s"
| "newnode_events ((parent, newnode, branch) # evs) s =
     newnode_events evs (snd (storeBBnode (p s) (T s) parent newnode branch s))"

definition slot :: "int \<times> int \<times> int \<Rightarrow> int \<times> bool" where
  "slot ev = (case ev of (parent, newnode, branch) \<Rightarrow> (parent, branch = 0))"

definition edge_stored :: "globals \<Rightarrow> int \<times> int \<times> int \<Rightarrow> bool" where
  "edge_stored s ev =
     (case ev of (parent, newnode, branch) \<Rightarrow>
        if branch = 0 then left s parent = Some newnode else right s parent = Some newnode)"

definition one_edge_per_event :: "(int \<times> int \<times> int) list \<Rightarrow> globals \<Rightarrow> bool" where
  "one_edge_per_event evs s \<longleftrightarrow>
     list_all (edge_stored s) evs \<and> len (left s) + len (right s) = int (length evs)"

lemma storeBBnode_left:
  "left (snd (storeBBnode prob Tree parent newnode branch s)) =
     (if branch = 0 then (left s)(parent \<mapsto> newnode) else left s)"
  by (simp add: storeBBnode_def Let_def)

lemma storeBBnode_right:
  "right (snd (storeBBnode prob Tree parent newnode branch s)) =
     (if branch = 0 then right s else (right s)(parent \<mapsto> newnode))"
  by (simp add: storeBBnode_def Let_def)

lemma newnode_events_append:
  "newnode_events (evs @ evs') s = newnode_events evs' (newnode_events evs s)"
  by (induction evs arbitrary: s) auto

lemma left_newnode_events_snoc:
  "left (newnode_events (evs @ [(parent, newnode, branch)]) s) =
     (if branch = 0 then (left (newnode_events evs s))(parent \<mapsto> newnode)
      else left (newnode_events evs s))"
  by (simp add: newnode_events_append storeBBnode_left)

lemma right_newnode_events_snoc:
  "right (newnode_events (evs @ [(parent, newnode, branch)]) s) =
     (if branch = 0 then right (newnode_events evs s)
      else (right (newnode_events evs s))(parent \<mapsto> newnode))"
  by (simp add: newnode_events_append storeBBnode_right)

text \<open>The dictionaries after a run, read off the event list: the keys of \<open>left\<close> are the
  parents reported with \<open>branch = 0\<close>, the keys of \<open>right\<close> the others.\<close>

lemma dom_left_newnode_events:
  "dom (left (newnode_events evs s)) = dom (left s) \<union> {parent. (parent, True) \<in> slot ` set evs}"
proof (induction evs rule: rev_induct)
  case Nil
  then show ?case by simp
next
  case (snoc ev evs)
  obtain parent newnode branch where ev: "ev = (parent, newnode, branch)"
    by (cases ev) auto
  show ?case
    unfolding ev left_newnode_events_snoc using snoc
    by (auto simp: slot_def image_iff split: prod.splits)
qed

lemma dom_right_newnode_events:
  "dom (right (newnode_events evs s)) = dom (right s) \<union> {parent. (parent, False) \<in> slot ` set evs}"
proof (induction evs rule: rev_induct)
  case Nil
  then show ?case by simp
next
  case (snoc ev evs)
  obtain parent newnode branch where ev: "ev = (parent, newnode, branch)"
    by (cases ev) auto
  show ?case
    unfolding ev right_newnode_events_snoc using snoc
    by (auto simp: slot_def image_iff split: prod.splits)
qed


lemma edge_stored_newnode_events:
  assumes "distinct (map slot evs)"
  shows "list_all (edge_stored (newnode_events evs s)) evs"
  using assms
proof (induction evs rule: rev_induct)
  case Nil
  then show ?case by simp
next
  case (snoc ev evs)
  obtain parent newnode branch where ev: "ev = (parent, newnode, branch)"
    by (cases ev) auto
  from snoc.prems have d: "distinct (map slot evs)" and fresh: "slot ev \<notin> slot ` set evs"
    by auto
  have old: "edge_stored (newnode_events (evs @ [ev]) s) e" if e: "e \<in> set evs" for e
  proof -
    obtain parent' newnode' branch' where e': "e = (parent', newnode', branch')"
      by (cases e) auto
    from snoc.IH [OF d] e have st: "edge_stored (newnode_events evs s) e"
      by (simp add: list_all_iff)
    from fresh e have ne: "slot e \<noteq> slot ev"
      by (metis imageI)
    show ?thesis
      using st ne unfolding ev e'
      by (auto simp: edge_stored_def slot_def left_newnode_events_snoc right_newnode_events_snoc)
  qed
  have new: "edge_stored (newnode_events (evs @ [ev]) s) ev"
    unfolding ev
    by (simp add: edge_stored_def left_newnode_events_snoc right_newnode_events_snoc)
  from old new show ?case
    by (simp add: list_all_iff)
qed

lemma card_slots:
  fixes S :: "(int \<times> bool) set"
  assumes "finite S"
  shows "card {parent. (parent, True) \<in> S} + card {parent. (parent, False) \<in> S} = card S"
proof -
  let ?A = "{parent. (parent, True) \<in> S}" and ?B = "{parent. (parent, False) \<in> S}"
  have S: "S = (\<lambda>parent. (parent, True)) ` ?A \<union> (\<lambda>parent. (parent, False)) ` ?B"
  proof (rule set_eqI)
    fix x :: "int \<times> bool"
    obtain parent b where x: "x = (parent, b)"
      by (cases x) auto
    show "x \<in> S \<longleftrightarrow> x \<in> (\<lambda>parent. (parent, True)) ` ?A \<union> (\<lambda>parent. (parent, False)) ` ?B"
      unfolding x by (cases b) auto
  qed
  have fA: "finite ((\<lambda>parent. (parent, True)) ` ?A)" and fB: "finite ((\<lambda>parent. (parent, False)) ` ?B)"
    using assms S by (metis finite_Un)+
  have "card S = card ((\<lambda>parent. (parent, True)) ` ?A) + card ((\<lambda>parent. (parent, False)) ` ?B)"
    using card_Un_disjoint [OF fA fB] S by auto
  also have "card ((\<lambda>parent. (parent, True)) ` ?A) = card ?A"
    by (rule card_image) (simp add: inj_on_def)
  also have "card ((\<lambda>parent. (parent, False)) ` ?B) = card ?B"
    by (rule card_image) (simp add: inj_on_def)
  finally show ?thesis by simp
qed

lemma len_newnode_events:
  assumes "distinct (map slot evs)" and "left s = Map.empty" and "right s = Map.empty"
  shows "len (left (newnode_events evs s)) + len (right (newnode_events evs s)) = int (length evs)"
proof -
  have "card (slot ` set evs) = length evs"
    using assms(1) distinct_card [of "map slot evs"] by simp
  then show ?thesis
    using card_slots [of "slot ` set evs"] assms(2,3)
    by (simp add: len_def dom_left_newnode_events dom_right_newnode_events)
qed


text \<open>
  \<^bold>\<open>C1\<close> (as amended). One call of \<open>storeBBnode\<close> stores \<open>newnode\<close> under the key
  \<open>parent\<close> of \<open>left\<close> when \<open>branch = 0\<close> and of \<open>right\<close> otherwise, and changes no other
  key of either dictionary. After a sequence of calls in which no two events report the
  same parent on the same side, started from the empty dictionaries of the notebook,
  every reported event is an edge of \<open>left\<close> or \<open>right\<close> and the two dictionaries hold as
  many entries as there were events.
\<close>

theorem storeBBnode_one_edge_per_event:
  assumes "distinct (map slot evs)"
  shows "left (snd (storeBBnode prob Tree parent newnode branch s)) =
           (if branch = 0 then (left s)(parent \<mapsto> newnode) else left s) \<and>
         right (snd (storeBBnode prob Tree parent newnode branch s)) =
           (if branch = 0 then right s else (right s)(parent \<mapsto> newnode)) \<and>
         one_edge_per_event evs (newnode_events evs init_globals)"
proof -
  have "list_all (edge_stored (newnode_events evs init_globals)) evs"
    using assms by (rule edge_stored_newnode_events)
  moreover have "len (left (newnode_events evs init_globals)) +
      len (right (newnode_events evs init_globals)) = int (length evs)"
    using assms by (rule len_newnode_events) (simp_all add: init_globals_def)
  ultimately show ?thesis
    by (simp add: one_edge_per_event_def storeBBnode_left storeBBnode_right)
qed

theorem storeBBnode_one_edge_per_event_witness:
  "distinct (map slot [(1, 2, 0), (1, 3, 1), (2, 4, 0)]) \<and>
   left (snd (storeBBnode (p init_globals) Graph 1 2 0 init_globals)) = [1 \<mapsto> 2] \<and>
   right (snd (storeBBnode (p init_globals) Graph 1 2 0 init_globals)) = Map.empty \<and>
   one_edge_per_event [(1, 2, 0), (1, 3, 1), (2, 4, 0)]
     (newnode_events [(1, 2, 0), (1, 3, 1), (2, 4, 0)] init_globals)"
proof -
  have d: "distinct (map slot [(1, 2, 0), (1, 3, 1), (2, 4, 0)])"
    by (simp add: slot_def)
  show ?thesis
    using d storeBBnode_one_edge_per_event [OF d, of "p init_globals" Graph 1 2 0 init_globals]
    by (simp add: init_globals_def)
qed

text \<open>
  Without the restriction the second of two events for the same parent and side
  overwrites the first: after \<open>(1, 2, 0)\<close> and \<open>(1, 3, 0)\<close> the dictionary \<open>left\<close> is
  \<open>{1: 3}\<close>, and the event \<open>(1, 2, 0)\<close> has no edge.
\<close>

theorem storeBBnode_overwrites_counterexample:
  "\<not> one_edge_per_event [(1, 2, 0), (1, 3, 0)]
       (newnode_events [(1, 2, 0), (1, 3, 0)] init_globals)"
  by (simp add: one_edge_per_event_def edge_stored_def storeBBnode_def Let_def init_globals_def)


section \<open>Counting the subtrees\<close>

definition child_rel :: "dict \<Rightarrow> dict \<Rightarrow> (int \<times> int) set" where
  "child_rel l r = {(c, n). l n = Some c \<or> r n = Some c}"

definition subtree :: "dict \<Rightarrow> dict \<Rightarrow> int \<Rightarrow> int set" where
  "subtree l r n = {m. (m, n) \<in> (child_rel l r)\<^sup>*}"

definition acyclic_mapping :: "dict \<Rightarrow> dict \<Rightarrow> bool" where
  "acyclic_mapping l r \<longleftrightarrow> finite (dom l) \<and> finite (dom r) \<and> acyclic (child_rel l r)"

inductive subtree_count :: "dict \<Rightarrow> dict \<Rightarrow> int \<Rightarrow> int \<Rightarrow> bool" for l r where
  count_node:
    "l n = None \<and> a = 0 \<or> (\<exists>c. l n = Some c \<and> subtree_count l r c a) \<Longrightarrow>
     r n = None \<and> b = 0 \<or> (\<exists>c. r n = Some c \<and> subtree_count l r c b) \<Longrightarrow>
     subtree_count l r n (1 + a + b)"

lemma finite_child_rel:
  assumes "finite (dom l)" and "finite (dom r)"
  shows "finite (child_rel l r)"
proof -
  have "child_rel l r \<subseteq> (\<lambda>n. (the (l n), n)) ` dom l \<union> (\<lambda>n. (the (r n), n)) ` dom r"
    by (auto simp: child_rel_def image_iff)
  then show ?thesis
    using assms by (meson finite_Un finite_imageI finite_subset)
qed

lemma wf_child_rel: "acyclic_mapping l r \<Longrightarrow> wf (child_rel l r)"
  by (simp add: acyclic_mapping_def finite_acyclic_wf finite_child_rel)

lemma subtree_self: "n \<in> subtree l r n"
  by (simp add: subtree_def)

lemma subtree_child: "(c, n) \<in> child_rel l r \<Longrightarrow> m \<in> subtree l r c \<Longrightarrow> m \<in> subtree l r n"
  by (simp add: subtree_def)

lemma subtree_cases:
  assumes "m \<in> subtree l r n"
  shows "m = n \<or> (\<exists>c. (c, n) \<in> child_rel l r \<and> m \<in> subtree l r c)"
  using assms unfolding subtree_def by (auto elim: rtranclE)

lemma add_card_Inr:
  "cs c = Some v \<Longrightarrow>
   add_card k c (Inr (s\<lparr>card_subtree := cs\<rparr>)) = Inr (k + v, s\<lparr>card_subtree := cs\<rparr>)"
  by (simp add: add_card_def)

lemma postorder_count_run:
  assumes "wf (child_rel (left s0) (right s0))"
  shows "\<exists>cs'. postorder_count n (s0\<lparr>card_subtree := cs\<rparr>) = Some (Inr (s0\<lparr>card_subtree := cs'\<rparr>)) \<and>
           (\<forall>m. m \<notin> subtree (left s0) (right s0) n \<longrightarrow> cs' m = cs m) \<and>
           (\<forall>m \<in> subtree (left s0) (right s0) n.
              \<exists>c. cs' m = Some c \<and> subtree_count (left s0) (right s0) m c)"
  using assms
proof (induction n arbitrary: cs rule: wf_induct_rule)
  case (less n)
  let ?l = "left s0" and ?r = "right s0"
  let ?sub = "subtree ?l ?r"
  let ?good = "\<lambda>cs m. \<exists>c. cs m = Some c \<and> subtree_count ?l ?r m c"
  have visit: "\<exists>k' cs'.
      (case ch of
         None \<Rightarrow> Some (Inr (k, s0\<lparr>card_subtree := cs0\<rparr>))
       | Some c \<Rightarrow> Option.bind (postorder_count c (s0\<lparr>card_subtree := cs0\<rparr>))
                    (\<lambda>res. Some (add_card k c res))) =
        Some (Inr (k', s0\<lparr>card_subtree := cs'\<rparr>)) \<and>
      (\<forall>m. (\<forall>c. ch = Some c \<longrightarrow> m \<notin> ?sub c) \<longrightarrow> cs' m = cs0 m) \<and>
      (\<forall>c. ch = Some c \<longrightarrow> (\<forall>m \<in> ?sub c. ?good cs' m)) \<and>
      (\<exists>v. k' = k + v \<and> (ch = None \<and> v = 0 \<or> (\<exists>c. ch = Some c \<and> subtree_count ?l ?r c v)))"
    if ch: "\<forall>c. ch = Some c \<longrightarrow> (c, n) \<in> child_rel ?l ?r" for ch k cs0
  proof (cases ch)
    case None
    then show ?thesis
      by (intro exI [of _ k] exI [of _ cs0]) simp
  next
    case (Some c)
    with ch have "(c, n) \<in> child_rel ?l ?r" by simp
    from less.IH [OF this, of cs0] obtain cs' where
      run: "postorder_count c (s0\<lparr>card_subtree := cs0\<rparr>) = Some (Inr (s0\<lparr>card_subtree := cs'\<rparr>))"
      and frame: "\<forall>m. m \<notin> ?sub c \<longrightarrow> cs' m = cs0 m"
      and good: "\<forall>m \<in> ?sub c. ?good cs' m"
      by blast
    from good subtree_self [of c ?l ?r] obtain v where
      v: "cs' c = Some v" "subtree_count ?l ?r c v"
      by blast
    show ?thesis
      using Some run frame good v
      by (intro exI [of _ "k + v"] exI [of _ cs']) (simp add: add_card_Inr)
  qed
  have chl: "\<forall>c. ?l n = Some c \<longrightarrow> (c, n) \<in> child_rel ?l ?r"
    and chr: "\<forall>c. ?r n = Some c \<longrightarrow> (c, n) \<in> child_rel ?l ?r"
    by (simp_all add: child_rel_def)
  from visit [OF chl, of 0 cs] obtain card1 cs1 a where
    run1: "(case ?l n of
         None \<Rightarrow> Some (Inr (0, s0\<lparr>card_subtree := cs\<rparr>))
       | Some c \<Rightarrow> Option.bind (postorder_count c (s0\<lparr>card_subtree := cs\<rparr>))
                    (\<lambda>res. Some (add_card 0 c res))) =
        Some (Inr (card1, s0\<lparr>card_subtree := cs1\<rparr>))"
    and frame1: "\<forall>m. (\<forall>c. ?l n = Some c \<longrightarrow> m \<notin> ?sub c) \<longrightarrow> cs1 m = cs m"
    and good1: "\<forall>c. ?l n = Some c \<longrightarrow> (\<forall>m \<in> ?sub c. ?good cs1 m)"
    and a: "card1 = 0 + a" "?l n = None \<and> a = 0 \<or> (\<exists>c. ?l n = Some c \<and> subtree_count ?l ?r c a)"
    by blast
  from visit [OF chr, of card1 cs1] obtain card2 cs2 b where
    run2: "(case ?r n of
         None \<Rightarrow> Some (Inr (card1, s0\<lparr>card_subtree := cs1\<rparr>))
       | Some c \<Rightarrow> Option.bind (postorder_count c (s0\<lparr>card_subtree := cs1\<rparr>))
                    (\<lambda>res. Some (add_card card1 c res))) =
        Some (Inr (card2, s0\<lparr>card_subtree := cs2\<rparr>))"
    and frame2: "\<forall>m. (\<forall>c. ?r n = Some c \<longrightarrow> m \<notin> ?sub c) \<longrightarrow> cs2 m = cs1 m"
    and good2: "\<forall>c. ?r n = Some c \<longrightarrow> (\<forall>m \<in> ?sub c. ?good cs2 m)"
    and b: "card2 = card1 + b" "?r n = None \<and> b = 0 \<or> (\<exists>c. ?r n = Some c \<and> subtree_count ?l ?r c b)"
    by blast
  let ?cs' = "cs2(n \<mapsto> 1 + card2)"
  have run: "postorder_count n (s0\<lparr>card_subtree := cs\<rparr>) = Some (Inr (s0\<lparr>card_subtree := ?cs'\<rparr>))"
    by (subst postorder_count.simps) (simp add: run1 run2)
  have count_n: "subtree_count ?l ?r n (1 + card2)"
    using count_node [OF a(2) b(2)] a(1) b(1) by (simp add: add.assoc)
  have below: "?good cs2 m" if "(c, n) \<in> child_rel ?l ?r" "m \<in> ?sub c" for c m
  proof (cases "\<exists>c'. ?r n = Some c' \<and> m \<in> ?sub c'")
    case True
    with good2 show ?thesis by blast
  next
    case False
    with frame2 have eq: "cs2 m = cs1 m" by blast
    from False that have "?l n = Some c"
      by (auto simp: child_rel_def)
    with good1 that(2) have "?good cs1 m" by blast
    with eq show ?thesis by simp
  qed
  have good: "?good ?cs' m" if "m \<in> ?sub n" for m
  proof (cases "m = n")
    case True
    with count_n show ?thesis by simp
  next
    case False
    with subtree_cases [OF that] obtain c where "(c, n) \<in> child_rel ?l ?r" "m \<in> ?sub c"
      by blast
    from below [OF this] False show ?thesis by simp
  qed
  have frame: "?cs' m = cs m" if "m \<notin> ?sub n" for m
  proof -
    from that have ne: "m \<noteq> n"
      using subtree_self by blast
    have out: "m \<notin> ?sub c" if "(c, n) \<in> child_rel ?l ?r" for c
      using \<open>m \<notin> ?sub n\<close> subtree_child [OF that] by blast
    have "cs2 m = cs1 m"
      using frame2 out chr by blast
    moreover have "cs1 m = cs m"
      using frame1 out chl by blast
    ultimately show ?thesis using ne by simp
  qed
  from run good frame show ?case by blast
qed


lemma subtree_count_ge1: "subtree_count l r n v \<Longrightarrow> 1 \<le> v"
  by (induction rule: subtree_count.induct) auto

lemma subtree_count_inv:
  assumes "subtree_count l r n v"
  shows "\<exists>a b. v = 1 + a + b \<and>
           (l n = None \<and> a = 0 \<or> (\<exists>c. l n = Some c \<and> subtree_count l r c a)) \<and>
           (r n = None \<and> b = 0 \<or> (\<exists>c. r n = Some c \<and> subtree_count l r c b))"
  using assms by (rule subtree_count.cases) blast

lemma subtree_count_unique:
  "subtree_count l r n v \<Longrightarrow> subtree_count l r n w \<Longrightarrow> v = w"
proof (induction arbitrary: w rule: subtree_count.induct)
  case (count_node n a b)
  from subtree_count_inv [OF count_node.prems] obtain a' b' where w: "w = 1 + a' + b'"
    and a': "l n = None \<and> a' = 0 \<or> (\<exists>c. l n = Some c \<and> subtree_count l r c a')"
    and b': "r n = None \<and> b' = 0 \<or> (\<exists>c. r n = Some c \<and> subtree_count l r c b')"
    by blast
  have "a = a'"
    using count_node(1) a' by (metis option.distinct(1) option.inject)
  moreover have "b = b'"
    using count_node(2) b' by (metis option.distinct(1) option.inject)
  ultimately show ?case
    using w by simp
qed

lemma subtree_count_leaf:
  assumes "subtree_count l r n v"
  shows "v = 1 \<longleftrightarrow> l n = None \<and> r n = None"
proof -
  from subtree_count_inv [OF assms] obtain a b where v: "v = 1 + a + b"
    and a: "l n = None \<and> a = 0 \<or> (\<exists>c. l n = Some c \<and> subtree_count l r c a)"
    and b: "r n = None \<and> b = 0 \<or> (\<exists>c. r n = Some c \<and> subtree_count l r c b)"
    by blast
  have "l n = None \<and> a = 0 \<or> l n \<noteq> None \<and> 1 \<le> a"
    using a by (auto dest: subtree_count_ge1)
  moreover have "r n = None \<and> b = 0 \<or> r n \<noteq> None \<and> 1 \<le> b"
    using b by (auto dest: subtree_count_ge1)
  ultimately show ?thesis
    using v by auto
qed

definition child_card :: "dict \<Rightarrow> int option \<Rightarrow> int option" where
  "child_card cs ch = (case ch of None \<Rightarrow> Some 0 | Some c \<Rightarrow> cs c)"

definition single_parent :: "dict \<Rightarrow> dict \<Rightarrow> bool" where
  "single_parent l r \<longleftrightarrow>
     single_valued (child_rel l r) \<and> (\<forall>n c. l n = Some c \<longrightarrow> r n \<noteq> Some c)"

lemma not_in_child_subtree:
  assumes "acyclic (child_rel l r)" and "(c, n) \<in> child_rel l r"
  shows "n \<notin> subtree l r c"
proof
  assume "n \<in> subtree l r c"
  then have "(n, c) \<in> (child_rel l r)\<^sup>*"
    by (simp add: subtree_def)
  with assms(2) have "(n, n) \<in> (child_rel l r)\<^sup>+"
    by (auto intro: rtrancl_into_trancl1)
  with assms(1) show False
    by (simp add: acyclic_def)
qed

lemma subtree_disjoint:
  assumes sp: "single_parent l r" and ac: "acyclic (child_rel l r)"
    and l: "l n = Some c" and r: "r n = Some c'"
  shows "subtree l r c \<inter> subtree l r c' = {}"
proof (rule ccontr)
  let ?R = "child_rel l r"
  assume "subtree l r c \<inter> subtree l r c' \<noteq> {}"
  then obtain x where x: "(x, c) \<in> ?R\<^sup>*" "(x, c') \<in> ?R\<^sup>*"
    by (auto simp: subtree_def)
  from sp have sv: "single_valued ?R" and ne: "c \<noteq> c'"
    using l r by (auto simp: single_parent_def)
  have cn: "(c, n) \<in> ?R" and c'n: "(c', n) \<in> ?R"
    using l r by (auto simp: child_rel_def)
  have up: False if "(d, d') \<in> ?R\<^sup>*" "d \<noteq> d'" "(d, n) \<in> ?R" "(d', n) \<in> ?R" for d d'
  proof -
    from that(1,2) have "(d, d') \<in> ?R\<^sup>+"
      by (simp add: rtrancl_eq_or_trancl)
    then obtain y where y: "(d, y) \<in> ?R" "(y, d') \<in> ?R\<^sup>*"
      by (blast dest: tranclD)
    from sv y(1) that(3) have "y = n"
      by (rule single_valuedD)
    with y(2) that(4) have "(n, n) \<in> ?R\<^sup>+"
      by (auto intro: rtrancl_into_trancl1)
    with ac show False
      by (simp add: acyclic_def)
  qed
  from single_valued_confluent [OF sv x] show False
    using up [of c c'] up [of c' c] ne cn c'n by blast
qed

lemma finite_subtree:
  assumes "finite (dom l)" and "finite (dom r)"
  shows "finite (subtree l r n)"
proof -
  have "subtree l r n \<subseteq> insert n (Domain (child_rel l r))"
    unfolding subtree_def by (auto elim: converse_rtranclE)
  moreover have "finite (Domain (child_rel l r))"
    using finite_child_rel [OF assms] by (simp add: finite_Domain)
  ultimately show ?thesis
    by (meson finite_insert finite_subset)
qed

definition below :: "dict \<Rightarrow> dict \<Rightarrow> int option \<Rightarrow> int set" where
  "below l r ch = (case ch of None \<Rightarrow> {} | Some c \<Rightarrow> subtree l r c)"

lemma subtree_unfold: "subtree l r n = insert n (below l r (l n) \<union> below l r (r n))"
proof (rule set_eqI)
  fix m
  show "m \<in> subtree l r n \<longleftrightarrow> m \<in> insert n (below l r (l n) \<union> below l r (r n))"
  proof
    assume "m \<in> subtree l r n"
    from subtree_cases [OF this] show "m \<in> insert n (below l r (l n) \<union> below l r (r n))"
      by (auto simp: below_def child_rel_def)
  next
    assume "m \<in> insert n (below l r (l n) \<union> below l r (r n))"
    then consider "m = n" | c where "l n = Some c" "m \<in> subtree l r c"
      | c where "r n = Some c" "m \<in> subtree l r c"
      by (auto simp: below_def split: option.splits)
    then show "m \<in> subtree l r n"
    proof cases
      case 1
      then show ?thesis by (simp add: subtree_self)
    next
      case 2
      then show ?thesis
        by (auto intro!: subtree_child [of c n] simp: child_rel_def)
    next
      case 3
      then show ?thesis
        by (auto intro!: subtree_child [of c n] simp: child_rel_def)
    qed
  qed
qed

lemma subtree_count_card:
  assumes am: "acyclic_mapping l r" and sp: "single_parent l r"
  shows "subtree_count l r n v \<Longrightarrow> v = int (card (subtree l r n))"
proof (induction rule: subtree_count.induct)
  case (count_node n a b)
  from am have fin: "finite (dom l)" "finite (dom r)" and ac: "acyclic (child_rel l r)"
    by (simp_all add: acyclic_mapping_def)
  let ?A = "below l r (l n)" and ?B = "below l r (r n)"
  have fA: "finite ?A" and fB: "finite ?B"
    using finite_subtree [OF fin] by (auto simp: below_def split: option.splits)
  have a: "a = int (card ?A)"
    using count_node(1) by (auto simp: below_def)
  have b: "b = int (card ?B)"
    using count_node(2) by (auto simp: below_def)
  have nsub: "n \<notin> subtree l r c" if "l n = Some c \<or> r n = Some c" for c
    using that by (intro not_in_child_subtree [OF ac]) (simp add: child_rel_def)
  have nA: "n \<notin> ?A" and nB: "n \<notin> ?B"
    by (simp_all add: below_def nsub split: option.splits)
  have dis: "?A \<inter> ?B = {}"
    by (simp add: below_def subtree_disjoint [OF sp ac] split: option.splits)
  have "card (subtree l r n) = Suc (card (?A \<union> ?B))"
    unfolding subtree_unfold [of l r n] using fA fB nA nB by simp
  also have "card (?A \<union> ?B) = card ?A + card ?B"
    using fA fB dis by (rule card_Un_disjoint)
  finally show ?case
    using a b by simp
qed


lemma subtree_child_closed:
  "m \<in> subtree l r n \<Longrightarrow> l m = Some c \<or> r m = Some c \<Longrightarrow> c \<in> subtree l r n"
  unfolding subtree_def child_rel_def by (auto intro: converse_rtrancl_into_rtrancl)

lemma acyclic_mapping_increasing:
  assumes "finite (dom l)" and "finite (dom r)"
    and "\<And>n c. l n = Some c \<or> r n = Some c \<Longrightarrow> n < c"
  shows "acyclic_mapping l r"
proof -
  have "acyclic (child_rel l r)"
    by (rule acyclicI_order [where f = "\<lambda>n. n"]) (use assms(3) in \<open>auto simp: child_rel_def\<close>)
  with assms(1,2) show ?thesis
    by (simp add: acyclic_mapping_def)
qed

lemma postorder_count_counts:
  assumes "acyclic_mapping (left s) (right s)"
  shows "\<exists>cs'. postorder_count n s = Some (Inr (s\<lparr>card_subtree := cs'\<rparr>)) \<and>
           (\<forall>m \<in> subtree (left s) (right s) n. \<exists>c. cs' m = Some c \<and> 1 \<le> c \<and>
              (\<forall>k. left s m = Some k \<or> right s m = Some k \<longrightarrow>
                 (\<exists>a. cs' k = Some a \<and> 1 \<le> a \<and> a < c)))"
proof -
  let ?l = "left s" and ?r = "right s"
  from postorder_count_run [OF wf_child_rel [OF assms], of n "card_subtree s"]
  obtain cs' where run: "postorder_count n s = Some (Inr (s\<lparr>card_subtree := cs'\<rparr>))"
    and good: "\<forall>m \<in> subtree ?l ?r n. \<exists>c. cs' m = Some c \<and> subtree_count ?l ?r m c"
    by auto
  have "\<exists>c. cs' m = Some c \<and> 1 \<le> c \<and>
      (\<forall>k. ?l m = Some k \<or> ?r m = Some k \<longrightarrow> (\<exists>a. cs' k = Some a \<and> 1 \<le> a \<and> a < c))"
    if m: "m \<in> subtree ?l ?r n" for m
  proof -
    from good m obtain c where c: "cs' m = Some c" "subtree_count ?l ?r m c"
      by blast
    from subtree_count_inv [OF c(2)] obtain a b where ab: "c = 1 + a + b"
      and a: "?l m = None \<and> a = 0 \<or> (\<exists>ch. ?l m = Some ch \<and> subtree_count ?l ?r ch a)"
      and b: "?r m = None \<and> b = 0 \<or> (\<exists>ch. ?r m = Some ch \<and> subtree_count ?l ?r ch b)"
      by blast
    from a have a0: "0 \<le> a"
      using subtree_count_ge1 by fastforce
    from b have b0: "0 \<le> b"
      using subtree_count_ge1 by fastforce
    have "\<exists>v. cs' k = Some v \<and> 1 \<le> v \<and> v < c" if k: "?l m = Some k \<or> ?r m = Some k" for k
    proof -
      from subtree_child_closed [OF m k] good obtain v where
        v: "cs' k = Some v" "subtree_count ?l ?r k v"
        by blast
      from k have "v = a \<or> v = b"
      proof
        assume "?l m = Some k"
        with a v(2) show ?thesis
          by (auto dest: subtree_count_unique)
      next
        assume "?r m = Some k"
        with b v(2) show ?thesis
          by (auto dest: subtree_count_unique)
      qed
      with ab a0 b0 have "v < c"
        by auto
      with v(1) subtree_count_ge1 [OF v(2)] show ?thesis
        by simp
    qed
    with c(1) subtree_count_ge1 [OF c(2)] show ?thesis
      by blast
  qed
  with run show ?thesis
    by blast
qed

text \<open>
  \<^bold>\<open>C3\<close> (as amended). For every finite acyclic \<open>left\<close>/\<open>right\<close> mapping and every node
  \<open>n\<close>, \<open>postorder_count(n)\<close> returns, changes nothing but \<open>card_subtree\<close>, and afterwards
  every node \<open>m\<close> of the subtree rooted at \<open>n\<close> has
  \<open>card_subtree[m] = 1 + card_subtree[left[m]] + card_subtree[right[m]]\<close> (a missing child
  counting 0); this value is at least 1, and it is 1 exactly when \<open>m\<close> is a leaf. When
  moreover no node is stored under two keys of \<open>left\<close> and \<open>right\<close> (the mapping is a
  tree), the value is the number of nodes of the subtree rooted at \<open>m\<close>.
\<close>

theorem postorder_count_card_subtree:
  assumes "acyclic_mapping (left s) (right s)"
  shows "\<exists>cs'. postorder_count n s = Some (Inr (s\<lparr>card_subtree := cs'\<rparr>)) \<and>
           (\<forall>m \<in> subtree (left s) (right s) n. \<exists>c a b.
              cs' m = Some c \<and>
              child_card cs' (left s m) = Some a \<and> child_card cs' (right s m) = Some b \<and>
              c = 1 + a + b \<and> 1 \<le> c \<and>
              (c = 1 \<longleftrightarrow> left s m = None \<and> right s m = None) \<and>
              (single_parent (left s) (right s) \<longrightarrow>
                 c = int (card (subtree (left s) (right s) m))))"
proof -
  let ?l = "left s" and ?r = "right s"
  from postorder_count_run [OF wf_child_rel [OF assms], of n "card_subtree s"]
  obtain cs' where run: "postorder_count n s = Some (Inr (s\<lparr>card_subtree := cs'\<rparr>))"
    and good: "\<forall>m \<in> subtree ?l ?r n. \<exists>c. cs' m = Some c \<and> subtree_count ?l ?r m c"
    by auto
  have "\<exists>c a b. cs' m = Some c \<and>
          child_card cs' (?l m) = Some a \<and> child_card cs' (?r m) = Some b \<and>
          c = 1 + a + b \<and> 1 \<le> c \<and> (c = 1 \<longleftrightarrow> ?l m = None \<and> ?r m = None) \<and>
          (single_parent ?l ?r \<longrightarrow> c = int (card (subtree ?l ?r m)))"
    if m: "m \<in> subtree ?l ?r n" for m
  proof -
    from good m obtain c where c: "cs' m = Some c" "subtree_count ?l ?r m c"
      by blast
    from subtree_count_inv [OF c(2)] obtain a b where ab: "c = 1 + a + b"
      and a: "?l m = None \<and> a = 0 \<or> (\<exists>ch. ?l m = Some ch \<and> subtree_count ?l ?r ch a)"
      and b: "?r m = None \<and> b = 0 \<or> (\<exists>ch. ?r m = Some ch \<and> subtree_count ?l ?r ch b)"
      by blast
    have stored: "cs' ch = Some v"
      if "?l m = Some ch \<or> ?r m = Some ch" "subtree_count ?l ?r ch v" for ch v
    proof -
      from subtree_child_closed [OF m that(1)] good obtain v' where
        v': "cs' ch = Some v'" "subtree_count ?l ?r ch v'"
        by blast
      from subtree_count_unique [OF v'(2) that(2)] v'(1) show ?thesis
        by simp
    qed
    have ca: "child_card cs' (?l m) = Some a"
      using a stored by (auto simp: child_card_def)
    have cb: "child_card cs' (?r m) = Some b"
      using b stored by (auto simp: child_card_def)
    have tree: "c = int (card (subtree ?l ?r m))" if "single_parent ?l ?r"
      using subtree_count_card [OF assms that c(2)] .
    show ?thesis
      using c(1) ca cb ab subtree_count_ge1 [OF c(2)] subtree_count_leaf [OF c(2)] tree
      by blast
  qed
  with run show ?thesis
    by blast
qed


section \<open>Mappings produced by the callback\<close>

fun unseen_newnodes :: "int set \<Rightarrow> (int \<times> int \<times> int) list \<Rightarrow> bool" where
  "unseen_newnodes seen [] = True"
| "unseen_newnodes seen ((parent, newnode, branch) # evs) =
     (newnode \<notin> seen \<and> unseen_newnodes (insert parent (insert newnode seen)) evs)"

definition own_parent :: "int \<times> int \<times> int \<Rightarrow> bool" where
  "own_parent ev = (case ev of (parent, newnode, branch) \<Rightarrow> newnode = parent)"

definition fresh_newnodes :: "(int \<times> int \<times> int) list \<Rightarrow> bool" where
  "fresh_newnodes evs \<longleftrightarrow> unseen_newnodes {1} evs \<and> \<not> list_ex own_parent evs"

lemma own_parent_simp: "own_parent (parent, newnode, branch) \<longleftrightarrow> newnode = parent"
  by (simp add: own_parent_def)

definition tree_mapping :: "dict \<Rightarrow> dict \<Rightarrow> bool" where
  "tree_mapping l r \<longleftrightarrow> acyclic_mapping l r \<and> single_parent l r"

lemma child_rel_upd_left:
  "child_rel (l(parent \<mapsto> newnode)) r \<subseteq> insert (newnode, parent) (child_rel l r)"
  by (auto simp: child_rel_def split: if_splits)

lemma child_rel_upd_right:
  "child_rel l (r(parent \<mapsto> newnode)) \<subseteq> insert (newnode, parent) (child_rel l r)"
  by (auto simp: child_rel_def split: if_splits)

lemma acyclic_insert_fresh:
  assumes "acyclic R" and "newnode \<notin> Field R" and "newnode \<noteq> parent"
  shows "acyclic (insert (newnode, parent) R)"
proof -
  have "(parent, newnode) \<notin> R\<^sup>*"
  proof
    assume "(parent, newnode) \<in> R\<^sup>*"
    then show False
      using assms(2,3) by (auto elim: rtranclE simp: Field_def)
  qed
  with assms(1) show ?thesis
    by simp
qed

lemma single_valued_insert_fresh:
  assumes "single_valued R" and "newnode \<notin> Field R" and "R' \<subseteq> insert (newnode, parent) R"
  shows "single_valued R'"
proof (rule single_valuedI)
  fix x y z
  assume "(x, y) \<in> R'" and "(x, z) \<in> R'"
  with assms(3) have y: "(x, y) = (newnode, parent) \<or> (x, y) \<in> R"
    and z: "(x, z) = (newnode, parent) \<or> (x, z) \<in> R"
    by auto
  show "y = z"
  proof (cases "x = newnode")
    case True
    with assms(2) have "(x, y) \<notin> R" "(x, z) \<notin> R"
      by (auto simp: Field_def)
    with y z show ?thesis by simp
  next
    case False
    with y z have "(x, y) \<in> R" "(x, z) \<in> R" by auto
    with assms(1) show ?thesis
      by (rule single_valuedD)
  qed
qed

lemma tree_mapping_step:
  assumes tm: "tree_mapping l r" and fresh: "newnode \<notin> Field (child_rel l r)"
    and ne: "newnode \<noteq> parent"
  shows "tree_mapping (l(parent \<mapsto> newnode)) r" and "tree_mapping l (r(parent \<mapsto> newnode))"
proof -
  let ?R = "child_rel l r"
  from tm have fin: "finite (dom l)" "finite (dom r)" and ac: "acyclic ?R"
    and sv: "single_valued ?R" and lr: "\<forall>n c. l n = Some c \<longrightarrow> r n \<noteq> Some c"
    by (simp_all add: tree_mapping_def acyclic_mapping_def single_parent_def)
  have ac': "acyclic (insert (newnode, parent) ?R)"
    using ac fresh ne by (rule acyclic_insert_fresh)
  have nochild: "l n \<noteq> Some newnode" "r n \<noteq> Some newnode" for n
    using fresh by (auto simp: Field_def child_rel_def)
  show "tree_mapping (l(parent \<mapsto> newnode)) r"
    unfolding tree_mapping_def acyclic_mapping_def single_parent_def
    using fin acyclic_subset [OF ac' child_rel_upd_left]
      single_valued_insert_fresh [OF sv fresh child_rel_upd_left] lr nochild
    by auto
  show "tree_mapping l (r(parent \<mapsto> newnode))"
    unfolding tree_mapping_def acyclic_mapping_def single_parent_def
    using fin acyclic_subset [OF ac' child_rel_upd_right]
      single_valued_insert_fresh [OF sv fresh child_rel_upd_right] lr nochild
    by auto
qed

lemma Field_child_rel_step:
  assumes "Field (child_rel l r) \<subseteq> seen"
  shows "Field (child_rel (l(parent \<mapsto> newnode)) r) \<subseteq> insert parent (insert newnode seen)"
    and "Field (child_rel l (r(parent \<mapsto> newnode))) \<subseteq> insert parent (insert newnode seen)"
proof -
  have "Field (insert (newnode, parent) (child_rel l r)) \<subseteq> insert parent (insert newnode seen)"
    using assms by (auto simp: Field_def)
  then show "Field (child_rel (l(parent \<mapsto> newnode)) r) \<subseteq> insert parent (insert newnode seen)"
    and "Field (child_rel l (r(parent \<mapsto> newnode))) \<subseteq> insert parent (insert newnode seen)"
    using mono_Field [OF child_rel_upd_left [of l parent newnode r]]
      mono_Field [OF child_rel_upd_right [of l r parent newnode]]
    by blast+
qed

lemma tree_mapping_newnode_events:
  assumes "unseen_newnodes seen evs" and "\<not> list_ex own_parent evs"
    and "tree_mapping (left s) (right s)" and "Field (child_rel (left s) (right s)) \<subseteq> seen"
  shows "tree_mapping (left (newnode_events evs s)) (right (newnode_events evs s))"
  using assms
proof (induction evs arbitrary: s seen)
  case Nil
  then show ?case by simp
next
  case (Cons ev evs)
  obtain parent newnode branch where ev: "ev = (parent, newnode, branch)"
    by (cases ev) auto
  let ?s1 = "snd (storeBBnode (p s) (T s) parent newnode branch s)"
  from Cons.prems(1,2) have unseen: "newnode \<notin> seen" and ne: "newnode \<noteq> parent"
    and rest: "unseen_newnodes (insert parent (insert newnode seen)) evs"
      "\<not> list_ex own_parent evs"
    by (simp_all add: ev own_parent_simp)
  from unseen Cons.prems(4) have fresh: "newnode \<notin> Field (child_rel (left s) (right s))"
    by blast
  have "tree_mapping (left ?s1) (right ?s1)"
    using tree_mapping_step [OF Cons.prems(3) fresh ne]
    by (simp add: storeBBnode_left storeBBnode_right)
  moreover have "Field (child_rel (left ?s1) (right ?s1)) \<subseteq> insert parent (insert newnode seen)"
    using Field_child_rel_step [OF Cons.prems(4)]
    by (simp add: storeBBnode_left storeBBnode_right)
  ultimately show ?case
    unfolding ev using Cons.IH [OF rest] by simp
qed

lemma tree_mapping_fresh:
  assumes "fresh_newnodes evs"
  shows "tree_mapping (left (newnode_events evs init_globals)) (right (newnode_events evs init_globals))"
proof -
  have empty: "child_rel (left init_globals) (right init_globals) = {}"
    by (simp add: child_rel_def init_globals_def)
  have "tree_mapping (left init_globals) (right init_globals)"
    unfolding tree_mapping_def acyclic_mapping_def single_parent_def empty
    by (simp add: init_globals_def acyclic_def)
  then show ?thesis
    using assms tree_mapping_newnode_events [of "{1}" evs init_globals]
    by (simp add: fresh_newnodes_def empty)
qed


definition bb_tree :: globals where
  "bb_tree = newnode_events [(1, 2, 0), (1, 3, 1), (2, 4, 0)] init_globals"

definition bb_shared :: globals where
  "bb_shared = newnode_events [(1, 2, 0), (1, 2, 1)] init_globals"

lemma bb_tree_dicts: "left bb_tree = [1 \<mapsto> 2, 2 \<mapsto> 4]" "right bb_tree = [1 \<mapsto> 3]"
  by (simp_all add: bb_tree_def storeBBnode_def Let_def init_globals_def)

lemma bb_shared_dicts: "left bb_shared = [1 \<mapsto> 2]" "right bb_shared = [1 \<mapsto> 2]"
  by (simp_all add: bb_shared_def storeBBnode_def Let_def init_globals_def)

lemma tree_mapping_bb_tree: "tree_mapping (left bb_tree) (right bb_tree)"
  unfolding bb_tree_def
  by (rule tree_mapping_fresh) (simp add: fresh_newnodes_def own_parent_simp)

lemma subtree_bb_tree: "subtree (left bb_tree) (right bb_tree) 1 = {1, 2, 3, 4}"
  by (simp add: subtree_unfold below_def bb_tree_dicts insert_commute)

lemma postorder_count_bb_tree:
  "postorder_count 1 bb_tree =
     Some (Inr (bb_tree\<lparr>card_subtree := (card_subtree bb_tree)(4 \<mapsto> 1, 2 \<mapsto> 2, 3 \<mapsto> 1, 1 \<mapsto> 4)\<rparr>))"
  by (simp add: postorder_count.simps bb_tree_dicts add_card_def)


theorem postorder_count_card_subtree_witness:
  "acyclic_mapping (left bb_tree) (right bb_tree) \<and>
   single_parent (left bb_tree) (right bb_tree) \<and>
   (\<exists>cs'. postorder_count 1 bb_tree = Some (Inr (bb_tree\<lparr>card_subtree := cs'\<rparr>)) \<and>
      cs' 1 = Some (int (card (subtree (left bb_tree) (right bb_tree) 1))) \<and>
      cs' 1 = Some 4 \<and> cs' 2 = Some 2 \<and> cs' 3 = Some 1 \<and> cs' 4 = Some 1)"
proof -
  from tree_mapping_bb_tree have am: "acyclic_mapping (left bb_tree) (right bb_tree)"
    and sp: "single_parent (left bb_tree) (right bb_tree)"
    by (simp_all add: tree_mapping_def)
  from postorder_count_card_subtree [OF am, of 1] obtain cs' where
    run: "postorder_count 1 bb_tree = Some (Inr (bb_tree\<lparr>card_subtree := cs'\<rparr>))"
    and root: "\<exists>c a b. cs' 1 = Some c \<and>
        child_card cs' (left bb_tree 1) = Some a \<and> child_card cs' (right bb_tree 1) = Some b \<and>
        c = 1 + a + b \<and> 1 \<le> c \<and>
        (c = 1 \<longleftrightarrow> left bb_tree 1 = None \<and> right bb_tree 1 = None) \<and>
        (single_parent (left bb_tree) (right bb_tree) \<longrightarrow>
           c = int (card (subtree (left bb_tree) (right bb_tree) 1)))"
    using subtree_self [of 1 "left bb_tree" "right bb_tree"] by blast
  from root sp have c1: "cs' 1 = Some (int (card (subtree (left bb_tree) (right bb_tree) 1)))"
    by (elim exE conjE) simp
  from run postorder_count_bb_tree
  have "bb_tree\<lparr>card_subtree := cs'\<rparr> =
      bb_tree\<lparr>card_subtree := (card_subtree bb_tree)(4 \<mapsto> 1, 2 \<mapsto> 2, 3 \<mapsto> 1, 1 \<mapsto> 4)\<rparr>"
    by simp
  then have "card_subtree (bb_tree\<lparr>card_subtree := cs'\<rparr>) =
      card_subtree (bb_tree\<lparr>card_subtree := (card_subtree bb_tree)(4 \<mapsto> 1, 2 \<mapsto> 2, 3 \<mapsto> 1, 1 \<mapsto> 4)\<rparr>)"
    by (rule arg_cong)
  then have cs': "cs' = (card_subtree bb_tree)(4 \<mapsto> 1, 2 \<mapsto> 2, 3 \<mapsto> 1, 1 \<mapsto> 4)"
    by simp
  from am sp run c1 show ?thesis
    unfolding cs' by (intro conjI exI [of _ "(card_subtree bb_tree)(4 \<mapsto> 1, 2 \<mapsto> 2, 3 \<mapsto> 1, 1 \<mapsto> 4)"]) simp_all
qed

text \<open>
  Acyclicity alone does not give the number of nodes. The events \<open>(1, 2, 0)\<close> and
  \<open>(1, 2, 1)\<close> store node 2 as the left and as the right child of node 1; the mapping is
  acyclic, the subtree rooted at 1 has the two nodes 1 and 2, and \<open>postorder_count(1)\<close>
  leaves \<open>card_subtree[1] = 3\<close>.
\<close>

theorem postorder_count_shared_child_counterexample:
  "acyclic_mapping (left bb_shared) (right bb_shared) \<and>
   postorder_count 1 bb_shared =
     Some (Inr (bb_shared\<lparr>card_subtree := (card_subtree bb_shared)(2 \<mapsto> 1, 1 \<mapsto> 3)\<rparr>)) \<and>
   subtree (left bb_shared) (right bb_shared) 1 = {1, 2} \<and>
   \<not> (\<exists>cs'. postorder_count 1 bb_shared = Some (Inr (bb_shared\<lparr>card_subtree := cs'\<rparr>)) \<and>
        (\<forall>m \<in> subtree (left bb_shared) (right bb_shared) 1.
           cs' m = Some (int (card (subtree (left bb_shared) (right bb_shared) m)))))"
proof -
  have am: "acyclic_mapping (left bb_shared) (right bb_shared)"
    by (rule acyclic_mapping_increasing) (auto simp: bb_shared_dicts split: if_splits)
  have run: "postorder_count 1 bb_shared =
     Some (Inr (bb_shared\<lparr>card_subtree := (card_subtree bb_shared)(2 \<mapsto> 1, 1 \<mapsto> 3)\<rparr>))"
    by (simp add: postorder_count.simps bb_shared_dicts add_card_def)
  have sub: "subtree (left bb_shared) (right bb_shared) 1 = {1, 2}"
    by (simp add: subtree_unfold below_def bb_shared_dicts)
  have "False" if "postorder_count 1 bb_shared = Some (Inr (bb_shared\<lparr>card_subtree := cs'\<rparr>))"
    and all: "\<forall>m \<in> subtree (left bb_shared) (right bb_shared) 1.
           cs' m = Some (int (card (subtree (left bb_shared) (right bb_shared) m)))" for cs'
  proof -
    from that(1) run have "card_subtree (bb_shared\<lparr>card_subtree := cs'\<rparr>) =
        card_subtree (bb_shared\<lparr>card_subtree := (card_subtree bb_shared)(2 \<mapsto> 1, 1 \<mapsto> 3)\<rparr>)"
      by simp
    then have "cs' 1 = Some 3"
      by simp
    moreover from all sub have "cs' 1 = Some (int (card {1, 2 :: int}))"
      by simp
    ultimately show False
      by simp
  qed
  with am run sub show ?thesis
    by blast
qed

section \<open>Laying out the tree\<close>

definition alpha :: real where
  "alpha = 0.01"

definition subtree_width :: "real \<Rightarrow> real \<Rightarrow> int \<Rightarrow> int \<Rightarrow> globals \<Rightarrow> py_error + real" where
  "subtree_width st_width share child node s =
     (case card_subtree s child of
        None \<Rightarrow> Inl KeyError
      | Some cc \<Rightarrow>
          (case card_subtree s node of
             None \<Rightarrow> Inl KeyError
           | Some cn \<Rightarrow>
               if cn = 0 then Inl ZeroDivisionError
               else Inr (st_width * (alpha * share + (1 - alpha) * of_int cc / of_int cn))))"

partial_function (option) setpos ::
  "graph \<Rightarrow> int \<Rightarrow> real \<Rightarrow> real \<Rightarrow> int \<Rightarrow> globals \<Rightarrow> (py_error + graph) option" where
  "setpos G node curpos st_width depth s =
     Option.bind
       (case left s node of
          None \<Rightarrow> Some (Inr (if node = 1 then add_node G node (0.5, 1) else G))
        | Some l \<Rightarrow>
            (case subtree_width st_width 0.7 l node s of
               Inl e \<Rightarrow> Some (Inl e)
             | Inr leftwidth \<Rightarrow>
                 setpos
                   (add_edge
                      (add_node (if node = 1 then add_node G node (0.5, 1) else G) l
                         (curpos - (st_width - leftwidth) / 2, - depth))
                      node l)
                   l (curpos - (st_width - leftwidth) / 2) leftwidth (depth + 1) s))
       (\<lambda>res. case res of
          Inl e \<Rightarrow> Some (Inl e)
        | Inr G2 \<Rightarrow>
            (case right s node of
               None \<Rightarrow> Some (Inr G2)
             | Some r \<Rightarrow>
                 (case subtree_width st_width 0.5 r node s of
                    Inl e \<Rightarrow> Some (Inl e)
                  | Inr rightwidth \<Rightarrow>
                      setpos
                        (add_edge
                           (add_node G2 r (curpos + (st_width - rightwidth) / 2, - depth))
                           node r)
                        r (curpos + (st_width - rightwidth) / 2) rightwidth (depth + 1) s)))"


text \<open>
  The two halves of \<open>setpos\<close> differ in the dictionary, the share \<open>.7\<close> or \<open>.5\<close> and the
  direction of the shift only; \<open>visit\<close> is the common shape, with the recursive call as a parameter.
\<close>

definition root_node :: "graph \<Rightarrow> int \<Rightarrow> graph" where
  "root_node G node = (if node = 1 then add_node G node (0.5, 1) else G)"

definition visit ::
  "(graph \<Rightarrow> int \<Rightarrow> real \<Rightarrow> real \<Rightarrow> int \<Rightarrow> globals \<Rightarrow> (py_error + graph) option) \<Rightarrow>
   graph \<Rightarrow> int \<Rightarrow> int option \<Rightarrow> real \<Rightarrow> (real \<Rightarrow> real \<Rightarrow> real) \<Rightarrow> real \<Rightarrow> real \<Rightarrow> int \<Rightarrow>
   globals \<Rightarrow> (py_error + graph) option" where
  "visit f G node ch share dir curpos st_width depth s =
     (case ch of
        None \<Rightarrow> Some (Inr G)
      | Some c \<Rightarrow>
          (case subtree_width st_width share c node s of
             Inl e \<Rightarrow> Some (Inl e)
           | Inr wd \<Rightarrow>
               f (add_edge (add_node G c (dir curpos ((st_width - wd) / 2), - depth)) node c)
                 c (dir curpos ((st_width - wd) / 2)) wd (depth + 1) s))"

lemma setpos_unfold:
  "setpos G node curpos st_width depth s =
     Option.bind (visit setpos (root_node G node) node (left s node) 0.7 (-) curpos st_width depth s)
       (\<lambda>res. case res of
          Inl e \<Rightarrow> Some (Inl e)
        | Inr G2 \<Rightarrow> visit setpos G2 node (right s node) 0.5 (+) curpos st_width depth s)"
  unfolding visit_def root_node_def by (rule setpos.simps)

lemma visit_returns:
  assumes "\<And>c G' x wd. ch = Some c \<Longrightarrow> \<exists>res. f G' c x wd (depth + 1) s = Some res"
  shows "\<exists>res. visit f G node ch share dir curpos st_width depth s = Some res"
  using assms by (auto simp: visit_def split: option.splits sum.splits)

lemma setpos_returns:
  assumes "wf (child_rel (left s) (right s))"
  shows "\<exists>res. setpos G n curpos st_width depth s = Some res"
  using assms
proof (induction n arbitrary: G curpos st_width depth rule: wf_induct_rule)
  case (less n)
  have child: "\<exists>res. setpos G' c x wd (depth + 1) s = Some res"
    if "left s n = Some c \<or> right s n = Some c" for c G' x wd
    using that by (intro less.IH) (simp add: child_rel_def)
  from visit_returns [of "left s n" setpos "depth" s] child obtain res1 where
    res1: "visit setpos (root_node G n) n (left s n) 0.7 (-) curpos st_width depth s = Some res1"
    by blast
  show ?case
  proof (cases res1)
    case (Inl e)
    with res1 show ?thesis
      by (subst setpos_unfold) simp
  next
    case (Inr G2)
    from visit_returns [of "right s n" setpos "depth" s] child obtain res2 where
      "visit setpos G2 n (right s n) 0.5 (+) curpos st_width depth s = Some res2"
      by blast
    with res1 Inr show ?thesis
      by (subst setpos_unfold) simp
  qed
qed


text \<open>
  What a call of \<open>setpos\<close> leaves in the graph, for a relation \<open>R\<close> of (child, parent)
  pairs: a node \<open>m\<close> below \<open>n\<close> is \<open>placed\<close> when it is a node of the graph whose position
  has the \<open>y\<close>-coordinate of some path from \<open>n\<close> down to \<open>m\<close>, and \<open>linked\<close> when the graph
  has the edges to all its children.
\<close>

definition placed :: "(int \<times> int) set \<Rightarrow> graph \<Rightarrow> int \<Rightarrow> int \<Rightarrow> int \<Rightarrow> bool" where
  "placed R G n depth m \<longleftrightarrow>
     m \<in> g_nodes G \<and> (\<exists>k x. (m, n) \<in> R ^^ Suc k \<and> g_pos G m = Some (x, - (depth + int k)))"

definition linked :: "(int \<times> int) set \<Rightarrow> graph \<Rightarrow> int \<Rightarrow> bool" where
  "linked R G m \<longleftrightarrow> (\<forall>c. (c, m) \<in> R \<longrightarrow> (m, c) \<in> g_adj G \<and> (c, m) \<in> g_adj G)"

definition grows :: "graph \<Rightarrow> graph \<Rightarrow> bool" where
  "grows G G' \<longleftrightarrow> g_nodes G \<subseteq> g_nodes G' \<and> g_adj G \<subseteq> g_adj G'"

definition laid_out :: "(int \<times> int) set \<Rightarrow> graph \<Rightarrow> int \<Rightarrow> int \<Rightarrow> graph \<Rightarrow> bool" where
  "laid_out R G n depth G' \<longleftrightarrow>
     grows (root_node G n) G' \<and>
     (\<forall>m. (m, n) \<in> R\<^sup>+ \<longrightarrow> placed R G' n depth m) \<and>
     (\<forall>m. (m, n) \<in> R\<^sup>* \<longrightarrow> linked R G' m) \<and>
     (\<forall>m. (m, n) \<notin> R\<^sup>+ \<longrightarrow> g_pos G' m = g_pos (root_node G n) m)"

definition child_laid_out ::
  "(int \<times> int) set \<Rightarrow> graph \<Rightarrow> int \<Rightarrow> int option \<Rightarrow> int \<Rightarrow> graph \<Rightarrow> bool" where
  "child_laid_out R G n ch depth G' \<longleftrightarrow>
     grows G G' \<and>
     (\<forall>c. ch = Some c \<longrightarrow>
        (n, c) \<in> g_adj G' \<and> (c, n) \<in> g_adj G' \<and>
        (\<forall>m. (m, c) \<in> R\<^sup>* \<longrightarrow> placed R G' n depth m \<and> linked R G' m)) \<and>
     (\<forall>m. (\<forall>c. ch = Some c \<longrightarrow> (m, c) \<notin> R\<^sup>*) \<longrightarrow> g_pos G' m = g_pos G m)"

lemma grows_refl: "grows G G"
  by (simp add: grows_def)

lemma grows_trans: "grows G G' \<Longrightarrow> grows G' G'' \<Longrightarrow> grows G G''"
  by (auto simp: grows_def)

lemma grows_add: "grows G (add_edge (add_node G c xy) n c)" "grows G (root_node G n)"
  by (auto simp: grows_def add_edge_def add_node_def root_node_def)

lemma placed_grows:
  "placed R G n depth m \<Longrightarrow> grows G G' \<Longrightarrow> g_pos G' m = g_pos G m \<Longrightarrow> placed R G' n depth m"
  by (auto simp: placed_def grows_def)

lemma linked_grows: "linked R G m \<Longrightarrow> grows G G' \<Longrightarrow> linked R G' m"
  by (auto simp: linked_def grows_def)

lemma placed_child:
  assumes "placed R G c (depth + 1) m" and "(c, n) \<in> R"
  shows "placed R G n depth m"
proof -
  from assms(1) obtain k x where m: "m \<in> g_nodes G" and k: "(m, c) \<in> R ^^ Suc k"
    and xy: "g_pos G m = Some (x, - (depth + 1 + int k))"
    by (auto simp: placed_def)
  from k assms(2) have "(m, n) \<in> R ^^ Suc (Suc k)"
    by (rule relpow_Suc_I)
  moreover have "- (depth + 1 + int k) = - (depth + int (Suc k))"
    by simp
  ultimately show ?thesis
    using m xy unfolding placed_def by metis
qed

lemma visit_laid_out:
  assumes ch: "\<And>c. ch = Some c \<Longrightarrow> (c, n) \<in> R \<and> c \<noteq> 1 \<and> (c, c) \<notin> R\<^sup>+"
    and wd: "\<And>c. ch = Some c \<Longrightarrow> \<exists>wd. subtree_width st_width share c n s = Inr wd"
    and f: "\<And>c G0 x wd. ch = Some c \<Longrightarrow>
        \<exists>G'. f G0 c x wd (depth + 1) s = Some (Inr G') \<and> laid_out R G0 c (depth + 1) G'"
  shows "\<exists>G'. visit f G n ch share dir curpos st_width depth s = Some (Inr G') \<and>
           child_laid_out R G n ch depth G'"
proof (cases ch)
  case None
  then show ?thesis
    by (simp add: visit_def child_laid_out_def grows_refl)
next
  case (Some c)
  from ch [OF Some] have cn: "(c, n) \<in> R" and c1: "c \<noteq> 1" and cc: "(c, c) \<notin> R\<^sup>+"
    by simp_all
  from wd [OF Some] obtain wd where wd: "subtree_width st_width share c n s = Inr wd"
    by blast
  define x where "x = dir curpos ((st_width - wd) / 2)"
  define G0 where "G0 = add_edge (add_node G c (x, - depth)) n c"
  from f [OF Some, of G0 x wd] obtain G' where
    run: "f G0 c x wd (depth + 1) s = Some (Inr G')" and lo: "laid_out R G0 c (depth + 1) G'"
    by blast
  from lo c1 have g: "grows G0 G'"
    and pl: "\<And>m. (m, c) \<in> R\<^sup>+ \<Longrightarrow> placed R G' c (depth + 1) m"
    and li: "\<And>m. (m, c) \<in> R\<^sup>* \<Longrightarrow> linked R G' m"
    and fr: "\<And>m. (m, c) \<notin> R\<^sup>+ \<Longrightarrow> g_pos G' m = g_pos G0 m"
    by (simp_all add: laid_out_def root_node_def)
  have gG: "grows G G'"
    using grows_add(1) g unfolding G0_def by (rule grows_trans)
  have adj: "(n, c) \<in> g_adj G'" "(c, n) \<in> g_adj G'"
    using g by (auto simp: grows_def G0_def add_edge_def)
  have c_placed: "placed R G' n depth c"
  proof -
    have "c \<in> g_nodes G'"
      using g by (auto simp: grows_def G0_def add_edge_def)
    moreover have "g_pos G' c = Some (x, - (depth + int 0))"
      using fr [OF cc] by (simp add: G0_def add_edge_def add_node_def)
    moreover have "(c, n) \<in> R ^^ Suc 0"
      using cn by simp
    ultimately show ?thesis
      unfolding placed_def by blast
  qed
  have below: "placed R G' n depth m \<and> linked R G' m" if "(m, c) \<in> R\<^sup>*" for m
  proof (cases "m = c")
    case True
    with c_placed li [OF that] show ?thesis by simp
  next
    case False
    with that have "(m, c) \<in> R\<^sup>+"
      by (simp add: rtrancl_eq_or_trancl)
    from placed_child [OF pl [OF this] cn] li [OF that] show ?thesis by simp
  qed
  have frame: "g_pos G' m = g_pos G m" if "(m, c) \<notin> R\<^sup>*" for m
  proof -
    from that have "m \<noteq> c" and "(m, c) \<notin> R\<^sup>+"
      by (auto dest: trancl_into_rtrancl)
    with fr [of m] show ?thesis
      by (simp add: G0_def add_edge_def add_node_def)
  qed
  have "visit f G n ch share dir curpos st_width depth s = Some (Inr G')"
    using Some wd run by (simp add: visit_def x_def G0_def)
  moreover have "child_laid_out R G n ch depth G'"
    unfolding child_laid_out_def using Some gG adj below frame by simp
  ultimately show ?thesis
    by blast
qed


lemma laid_out_combine:
  assumes left: "child_laid_out (child_rel l r) (root_node G n) n (l n) depth G2"
    and right: "child_laid_out (child_rel l r) G2 n (r n) depth G3"
  shows "laid_out (child_rel l r) G n depth G3"
proof -
  let ?R = "child_rel l r"
  from left have g1: "grows (root_node G n) G2"
    and adj1: "\<And>c. l n = Some c \<Longrightarrow> (n, c) \<in> g_adj G2 \<and> (c, n) \<in> g_adj G2"
    and in1: "\<And>c m. l n = Some c \<Longrightarrow> (m, c) \<in> ?R\<^sup>* \<Longrightarrow> placed ?R G2 n depth m \<and> linked ?R G2 m"
    and fr1: "\<And>m. (\<forall>c. l n = Some c \<longrightarrow> (m, c) \<notin> ?R\<^sup>*) \<Longrightarrow> g_pos G2 m = g_pos (root_node G n) m"
    by (simp_all add: child_laid_out_def)
  from right have g2: "grows G2 G3"
    and adj2: "\<And>c. r n = Some c \<Longrightarrow> (n, c) \<in> g_adj G3 \<and> (c, n) \<in> g_adj G3"
    and in2: "\<And>c m. r n = Some c \<Longrightarrow> (m, c) \<in> ?R\<^sup>* \<Longrightarrow> placed ?R G3 n depth m \<and> linked ?R G3 m"
    and fr2: "\<And>m. (\<forall>c. r n = Some c \<longrightarrow> (m, c) \<notin> ?R\<^sup>*) \<Longrightarrow> g_pos G3 m = g_pos G2 m"
    by (simp_all add: child_laid_out_def)
  have below: "placed ?R G3 n depth m \<and> linked ?R G3 m" if "(m, n) \<in> ?R\<^sup>+" for m
  proof -
    from that obtain c where mc: "(m, c) \<in> ?R\<^sup>*" and cn: "(c, n) \<in> ?R"
      by (blast dest: tranclD2)
    show ?thesis
    proof (cases "\<exists>c'. r n = Some c' \<and> (m, c') \<in> ?R\<^sup>*")
      case True
      with in2 show ?thesis by blast
    next
      case False
      with cn mc have lc: "l n = Some c"
        by (auto simp: child_rel_def)
      from False fr2 have "g_pos G3 m = g_pos G2 m"
        by blast
      with in1 [OF lc mc] g2 show ?thesis
        by (blast intro: placed_grows linked_grows)
    qed
  qed
  have link_n: "linked ?R G3 n"
    unfolding linked_def
  proof (intro allI impI)
    fix c
    assume "(c, n) \<in> ?R"
    then consider "l n = Some c" | "r n = Some c"
      by (auto simp: child_rel_def)
    then show "(n, c) \<in> g_adj G3 \<and> (c, n) \<in> g_adj G3"
    proof cases
      case 1
      from adj1 [OF 1] g2 show ?thesis
        by (auto simp: grows_def)
    next
      case 2
      from adj2 [OF 2] show ?thesis .
    qed
  qed
  have linked: "linked ?R G3 m" if "(m, n) \<in> ?R\<^sup>*" for m
    using that below link_n by (auto simp: rtrancl_eq_or_trancl)
  have frame: "g_pos G3 m = g_pos (root_node G n) m" if "(m, n) \<notin> ?R\<^sup>+" for m
  proof -
    have out: "(m, c) \<notin> ?R\<^sup>*" if "l n = Some c \<or> r n = Some c" for c
    proof
      assume "(m, c) \<in> ?R\<^sup>*"
      moreover from that have "(c, n) \<in> ?R"
        by (auto simp: child_rel_def)
      ultimately have "(m, n) \<in> ?R\<^sup>+"
        by (rule rtrancl_into_trancl1)
      with \<open>(m, n) \<notin> ?R\<^sup>+\<close> show False ..
    qed
    from fr2 [of m] fr1 [of m] out show ?thesis
      by simp
  qed
  from grows_trans [OF g1 g2] below linked frame show ?thesis
    unfolding laid_out_def by blast
qed

lemma subtree_width_Inr:
  assumes "card_subtree s c = Some cc" and "card_subtree s n = Some cn" and "cn \<noteq> 0"
  shows "subtree_width st_width share c n s =
           Inr (st_width * (alpha * share + (1 - alpha) * of_int cc / of_int cn))"
  using assms by (simp add: subtree_width_def)

lemma setpos_laid_out:
  assumes "wf (child_rel (left s) (right s))"
  shows "(1, n) \<notin> (child_rel (left s) (right s))\<^sup>+ \<Longrightarrow>
         (\<forall>m. (m, n) \<in> (child_rel (left s) (right s))\<^sup>* \<longrightarrow>
              (\<exists>c. card_subtree s m = Some c \<and> c \<noteq> 0)) \<Longrightarrow>
         \<exists>G'. setpos G n curpos st_width depth s = Some (Inr G') \<and>
              laid_out (child_rel (left s) (right s)) G n depth G'"
  using assms
proof (induction n arbitrary: G curpos st_width depth rule: wf_induct_rule)
  case (less n)
  let ?R = "child_rel (left s) (right s)"
  from assms have ac: "acyclic ?R"
    by (rule wf_acyclic)
  from less.prems(2) obtain cn where cn: "card_subtree s n = Some cn" "cn \<noteq> 0"
    by blast
  have child: "(c, n) \<in> ?R \<and> c \<noteq> 1 \<and> (c, c) \<notin> ?R\<^sup>+"
    and width: "\<exists>wd. subtree_width w share c n s = Inr wd"
    and rec: "\<exists>G'. setpos G0 c x wd (depth + 1) s = Some (Inr G') \<and> laid_out ?R G0 c (depth + 1) G'"
    if c: "left s n = Some c \<or> right s n = Some c" for c w share G0 x wd
  proof -
    from c have cR: "(c, n) \<in> ?R"
      by (auto simp: child_rel_def)
    with less.prems(1) have c1: "c \<noteq> 1"
      by auto
    from ac have cc: "(c, c) \<notin> ?R\<^sup>+"
      by (simp add: acyclic_def)
    from cR c1 cc show "(c, n) \<in> ?R \<and> c \<noteq> 1 \<and> (c, c) \<notin> ?R\<^sup>+"
      by simp
    from less.prems(2) cR obtain cc' where "card_subtree s c = Some cc'"
      by (meson r_into_rtrancl)
    from subtree_width_Inr [OF this cn] show "\<exists>wd. subtree_width w share c n s = Inr wd"
      by blast
    have no1: "(1, c) \<notin> ?R\<^sup>+"
      using less.prems(1) cR by (meson trancl_into_trancl)
    have cards: "\<forall>m. (m, c) \<in> ?R\<^sup>* \<longrightarrow> (\<exists>k. card_subtree s m = Some k \<and> k \<noteq> 0)"
      using less.prems(2) cR by (meson rtrancl_into_rtrancl)
    from less.IH [OF cR no1 cards]
    show "\<exists>G'. setpos G0 c x wd (depth + 1) s = Some (Inr G') \<and> laid_out ?R G0 c (depth + 1) G'" .
  qed
  from visit_laid_out [where ch = "left s n" and n = n and R = ?R and f = setpos and s = s
      and G = "root_node G n" and dir = "(-)" and share = "0.7" and curpos = curpos
      and st_width = st_width and depth = depth]
    child width rec
  obtain G2 where
    run1: "visit setpos (root_node G n) n (left s n) 0.7 (-) curpos st_width depth s = Some (Inr G2)"
    and lo1: "child_laid_out ?R (root_node G n) n (left s n) depth G2"
    by blast
  from visit_laid_out [where ch = "right s n" and n = n and R = ?R and f = setpos and s = s
      and G = G2 and dir = "(+)" and share = "0.5" and curpos = curpos
      and st_width = st_width and depth = depth]
    child width rec
  obtain G3 where
    run2: "visit setpos G2 n (right s n) 0.5 (+) curpos st_width depth s = Some (Inr G3)"
    and lo2: "child_laid_out ?R G2 n (right s n) depth G3"
    by blast
  have "setpos G n curpos st_width depth s = Some (Inr G3)"
    using run1 run2 by (subst setpos_unfold) simp
  with laid_out_combine [OF lo1 lo2] show ?case
    by blast
qed


definition layout :: "globals \<Rightarrow> (py_error + globals) option" where
  "layout s =
     Option.bind (postorder_count 1 s)
       (\<lambda>res. case res of
          Inl e \<Rightarrow> Some (Inl e)
        | Inr s1 \<Rightarrow>
            Option.bind (setpos (T s1) 1 0.5 1 0 s1)
              (\<lambda>res. Some (case res of
                      Inl e \<Rightarrow> Inl e
                    | Inr G \<Rightarrow> Inr (s1\<lparr>T := G, pos := g_pos G\<rparr>))))"

definition at_depth :: "dict \<Rightarrow> dict \<Rightarrow> nat \<Rightarrow> int \<Rightarrow> bool" where
  "at_depth l r d m \<longleftrightarrow> (m, 1) \<in> child_rel l r ^^ d"

lemma depth_unique_le:
  assumes sv: "single_valued R" and ac: "acyclic R"
    and j: "(m, n) \<in> R ^^ j" and k: "(m, n) \<in> R ^^ (j + d)"
  shows "d = 0"
proof (rule ccontr)
  assume "d \<noteq> 0"
  from k obtain y where y: "(m, y) \<in> R ^^ j" "(y, n) \<in> R ^^ d"
    by (auto simp: relpow_add)
  from single_valued_relpow [OF sv, of j] y(1) j have "y = n"
    by (rule single_valuedD)
  with y(2) \<open>d \<noteq> 0\<close> have "(n, n) \<in> R\<^sup>+"
    by (auto simp: trancl_power)
  with ac show False
    by (simp add: acyclic_def)
qed

lemma depth_unique:
  assumes "single_valued R" and "acyclic R" and "(m, n) \<in> R ^^ j" and "(m, n) \<in> R ^^ k"
  shows "j = k"
proof (cases "j \<le> k")
  case True
  then obtain d where "k = j + d"
    by (auto simp: le_iff_add)
  with depth_unique_le [OF assms(1,2,3), of d] assms(4) show ?thesis
    by simp
next
  case False
  then obtain d where "j = k + d"
    by (metis le_iff_add nat_le_linear)
  with depth_unique_le [OF assms(1,2,4), of d] assms(3) show ?thesis
    by simp
qed

lemma layout_run:
  assumes am: "acyclic_mapping (left s) (right s)"
  shows "\<exists>cs' G'. layout s = Some (Inr (s\<lparr>card_subtree := cs', T := G', pos := g_pos G'\<rparr>)) \<and>
           laid_out (child_rel (left s) (right s)) (T s) 1 0 G'"
proof -
  let ?R = "child_rel (left s) (right s)"
  from postorder_count_counts [OF am, of 1] obtain cs' where
    run1: "postorder_count 1 s = Some (Inr (s\<lparr>card_subtree := cs'\<rparr>))"
    and cards: "\<forall>m \<in> subtree (left s) (right s) 1. \<exists>c. cs' m = Some c \<and> 1 \<le> c"
    by blast
  let ?s1 = "s\<lparr>card_subtree := cs'\<rparr>"
  have wf: "wf (child_rel (left ?s1) (right ?s1))"
    using wf_child_rel [OF am] by simp
  from am have "(1, 1) \<notin> ?R\<^sup>+"
    by (simp add: acyclic_mapping_def acyclic_def)
  then have no1: "(1, 1) \<notin> (child_rel (left ?s1) (right ?s1))\<^sup>+"
    by simp
  have ok: "\<forall>m. (m, 1) \<in> (child_rel (left ?s1) (right ?s1))\<^sup>* \<longrightarrow>
              (\<exists>c. card_subtree ?s1 m = Some c \<and> c \<noteq> 0)"
    using cards by (fastforce simp: subtree_def)
  from setpos_laid_out [OF wf no1 ok, of "T ?s1" "0.5" 1 0] obtain G' where
    run2: "setpos (T ?s1) 1 0.5 1 0 ?s1 = Some (Inr G')"
    and lo: "laid_out ?R (T s) 1 0 G'"
    by auto
  have "layout s = Some (Inr (s\<lparr>card_subtree := cs', T := G', pos := g_pos G'\<rparr>))"
    using run1 run2 by (simp add: layout_def)
  with lo show ?thesis
    by blast
qed


text \<open>
  \<^bold>\<open>C2\<close> (as amended). For every finite acyclic \<open>left\<close>/\<open>right\<close> mapping,
  \<open>postorder_count(1)\<close> followed by \<open>setpos(T, 1, 0.5, 1, 0)\<close> returns without an error;
  afterwards the root is placed at \<open>(0.5, 1)\<close>, every node reachable from node 1 is a node
  of \<open>T\<close> with a position attribute and has an edge to each of its children (so every
  node but the root has an edge to its parent), and every node below the root has the
  \<open>y\<close>-coordinate \<open>1 - d\<close> for the length \<open>d\<close> of one of the paths from the root to it. When the
  mapping is a tree (no node is stored under two keys), every node at depth \<open>d \<ge> 1\<close> has
  the \<open>y\<close>-coordinate \<open>1 - d\<close>.
\<close>

theorem layout_places_tree:
  assumes "acyclic_mapping (left s) (right s)"
  shows "\<exists>s'. layout s = Some (Inr s') \<and> left s' = left s \<and> right s' = right s \<and>
           pos s' = g_pos (T s') \<and> g_pos (T s') 1 = Some (0.5, 1) \<and>
           (\<forall>m \<in> subtree (left s) (right s) 1.
              m \<in> g_nodes (T s') \<and> (\<exists>x y. g_pos (T s') m = Some (x, y)) \<and>
              (\<forall>c. left s m = Some c \<or> right s m = Some c \<longrightarrow>
                 (m, c) \<in> g_adj (T s') \<and> (c, m) \<in> g_adj (T s')) \<and>
              (m \<noteq> 1 \<longrightarrow>
                 (\<exists>d x. 1 \<le> d \<and> at_depth (left s) (right s) d m \<and>
                    g_pos (T s') m = Some (x, 1 - int d)))) \<and>
           (single_parent (left s) (right s) \<longrightarrow>
              (\<forall>d m. 1 \<le> d \<and> at_depth (left s) (right s) d m \<longrightarrow>
                 (\<exists>x. g_pos (T s') m = Some (x, 1 - int d))))"
proof -
  let ?R = "child_rel (left s) (right s)"
  from layout_run [OF assms] obtain cs' G' where
    run: "layout s = Some (Inr (s\<lparr>card_subtree := cs', T := G', pos := g_pos G'\<rparr>))"
    and lo: "laid_out ?R (T s) 1 0 G'"
    by blast
  from assms have ac: "acyclic ?R" and no1: "(1, 1) \<notin> ?R\<^sup>+"
    by (simp_all add: acyclic_mapping_def acyclic_def)
  from lo have g: "grows (root_node (T s) 1) G'"
    and pl: "\<And>m. (m, 1) \<in> ?R\<^sup>+ \<Longrightarrow> placed ?R G' 1 0 m"
    and li: "\<And>m. (m, 1) \<in> ?R\<^sup>* \<Longrightarrow> linked ?R G' m"
    and fr: "\<And>m. (m, 1) \<notin> ?R\<^sup>+ \<Longrightarrow> g_pos G' m = g_pos (root_node (T s) 1) m"
    by (simp_all add: laid_out_def)
  have root: "g_pos G' 1 = Some (0.5, 1)" "1 \<in> g_nodes G'"
    using fr [OF no1] g by (auto simp: root_node_def add_node_def grows_def)
  have below: "m \<in> g_nodes G' \<and>
      (\<exists>d x. 1 \<le> d \<and> at_depth (left s) (right s) d m \<and> g_pos G' m = Some (x, 1 - int d))"
    if "(m, 1) \<in> ?R\<^sup>+" for m
  proof -
    from pl [OF that] obtain k x where "m \<in> g_nodes G'" "(m, 1) \<in> ?R ^^ Suc k"
      "g_pos G' m = Some (x, - (0 + int k))"
      by (auto simp: placed_def)
    then show ?thesis
      by (intro conjI exI [of _ "Suc k"] exI [of _ x]) (simp_all add: at_depth_def)
  qed
  have node: "m \<in> g_nodes G' \<and> (\<exists>x y. g_pos G' m = Some (x, y)) \<and>
      (\<forall>c. left s m = Some c \<or> right s m = Some c \<longrightarrow> (m, c) \<in> g_adj G' \<and> (c, m) \<in> g_adj G') \<and>
      (m \<noteq> 1 \<longrightarrow> (\<exists>d x. 1 \<le> d \<and> at_depth (left s) (right s) d m \<and>
          g_pos G' m = Some (x, 1 - int d)))"
    if "m \<in> subtree (left s) (right s) 1" for m
  proof -
    from that have m: "(m, 1) \<in> ?R\<^sup>*"
      by (simp add: subtree_def)
    have edges: "\<forall>c. left s m = Some c \<or> right s m = Some c \<longrightarrow>
        (m, c) \<in> g_adj G' \<and> (c, m) \<in> g_adj G'"
      using li [OF m] by (simp add: linked_def child_rel_def)
    show ?thesis
    proof (cases "m = 1")
      case True
      with root edges show ?thesis by blast
    next
      case False
      with m have "(m, 1) \<in> ?R\<^sup>+"
        by (simp add: rtrancl_eq_or_trancl)
      from below [OF this] edges show ?thesis by blast
    qed
  qed
  have tree: "\<exists>x. g_pos G' m = Some (x, 1 - int d)"
    if sp: "single_parent (left s) (right s)" and d: "1 \<le> d" "at_depth (left s) (right s) d m" for d m
  proof -
    from d have md: "(m, 1) \<in> ?R ^^ d" and "0 < d"
      by (simp_all add: at_depth_def)
    then have "(m, 1) \<in> ?R\<^sup>+"
      by (auto simp: trancl_power)
    from below [OF this] obtain d' x where d': "(m, 1) \<in> ?R ^^ d'"
      and xy: "g_pos G' m = Some (x, 1 - int d')"
      by (auto simp: at_depth_def)
    from sp have "single_valued ?R"
      by (simp add: single_parent_def)
    from depth_unique [OF this ac md d'] xy show ?thesis
      by blast
  qed
  show ?thesis
    using run root(1) node tree
    by (intro exI [of _ "s\<lparr>card_subtree := cs', T := G', pos := g_pos G'\<rparr>"]) simp
qed

definition bb_dag :: globals where
  "bb_dag = newnode_events [(1, 2, 0), (2, 3, 0), (1, 3, 1)] init_globals"

lemma bb_dag_dicts: "left bb_dag = [1 \<mapsto> 2, 2 \<mapsto> 3]" "right bb_dag = [1 \<mapsto> 3]"
  by (simp_all add: bb_dag_def storeBBnode_def Let_def init_globals_def)

lemma bb_dag_depth: "at_depth (left bb_dag) (right bb_dag) 2 3"
proof -
  have "(3, 2) \<in> child_rel (left bb_dag) (right bb_dag)"
    and "(2, 1) \<in> child_rel (left bb_dag) (right bb_dag)"
    by (simp_all add: child_rel_def bb_dag_dicts)
  then have "(3, 1) \<in> child_rel (left bb_dag) (right bb_dag) ^^ Suc (Suc 0)"
    by auto
  then show ?thesis
    by (simp add: at_depth_def numeral_2_eq_2)
qed

lemma layout_bb_dag:
  "\<exists>s'. layout bb_dag = Some (Inr s') \<and> g_pos (T s') 3 = Some (0.87375, 0)"
  by (simp add: layout_def postorder_count.simps setpos.simps bb_dag_dicts add_card_def
      subtree_width_def alpha_def add_node_def add_edge_def)


lemma bb_tree_depth: "at_depth (left bb_tree) (right bb_tree) 2 4"
proof -
  have "(4, 2) \<in> child_rel (left bb_tree) (right bb_tree)"
    and "(2, 1) \<in> child_rel (left bb_tree) (right bb_tree)"
    by (simp_all add: child_rel_def bb_tree_dicts)
  then have "(4, 1) \<in> child_rel (left bb_tree) (right bb_tree) ^^ Suc (Suc 0)"
    by auto
  then show ?thesis
    by (simp add: at_depth_def numeral_2_eq_2)
qed

theorem layout_places_tree_witness:
  "acyclic_mapping (left bb_tree) (right bb_tree) \<and>
   single_parent (left bb_tree) (right bb_tree) \<and>
   at_depth (left bb_tree) (right bb_tree) 2 4 \<and>
   (\<exists>s'. layout bb_tree = Some (Inr s') \<and> g_pos (T s') 1 = Some (0.5, 1) \<and>
      4 \<in> g_nodes (T s') \<and> (\<exists>x. g_pos (T s') 4 = Some (x, - 1)) \<and>
      (1, 2) \<in> g_adj (T s') \<and> (4, 2) \<in> g_adj (T s'))"
proof -
  from tree_mapping_bb_tree have am: "acyclic_mapping (left bb_tree) (right bb_tree)"
    and sp: "single_parent (left bb_tree) (right bb_tree)"
    by (simp_all add: tree_mapping_def)
  from layout_places_tree [OF am] obtain s' where
    run: "layout bb_tree = Some (Inr s')" and root: "g_pos (T s') 1 = Some (0.5, 1)"
    and nodes: "\<forall>m \<in> subtree (left bb_tree) (right bb_tree) 1.
        m \<in> g_nodes (T s') \<and>
        (\<forall>c. left bb_tree m = Some c \<or> right bb_tree m = Some c \<longrightarrow>
           (m, c) \<in> g_adj (T s') \<and> (c, m) \<in> g_adj (T s'))"
    and tree: "single_parent (left bb_tree) (right bb_tree) \<longrightarrow>
        (\<forall>d m. 1 \<le> d \<and> at_depth (left bb_tree) (right bb_tree) d m \<longrightarrow>
           (\<exists>x. g_pos (T s') m = Some (x, 1 - int d)))"
    by blast
  from tree sp bb_tree_depth have "\<exists>x. g_pos (T s') 4 = Some (x, 1 - int 2)"
    by (metis one_le_numeral)
  then have y: "\<exists>x. g_pos (T s') 4 = Some (x, - 1)"
    by simp
  have l: "left bb_tree 1 = Some 2" "left bb_tree 2 = Some 4"
    by (simp_all add: bb_tree_dicts)
  from nodes l have "4 \<in> g_nodes (T s')" "(1, 2) \<in> g_adj (T s')" "(4, 2) \<in> g_adj (T s')"
    unfolding subtree_bb_tree by blast+
  with am sp bb_tree_depth run root y show ?thesis
    by blast
qed

text \<open>
  Acyclicity alone does not fix the depth of a node. After the events \<open>(1, 2, 0)\<close>,
  \<open>(2, 3, 0)\<close> and \<open>(1, 3, 1)\<close> node 3 is the left child of node 2 and the right child of
  node 1, so it is at depth 2 and at depth 1. \<open>setpos\<close> places it twice; the second
  placement, as the right child of the root, stays: its \<open>y\<close>-coordinate is \<open>0\<close>, not \<open>1 - 2\<close>.
\<close>

theorem layout_shared_node_counterexample:
  "acyclic_mapping (left bb_dag) (right bb_dag) \<and>
   at_depth (left bb_dag) (right bb_dag) 2 3 \<and>
   (\<exists>s'. layout bb_dag = Some (Inr s') \<and> g_pos (T s') 3 = Some (0.87375, 0)) \<and>
   \<not> (\<exists>s'. layout bb_dag = Some (Inr s') \<and>
        (\<forall>d m. 1 \<le> d \<and> at_depth (left bb_dag) (right bb_dag) d m \<longrightarrow>
           (\<exists>x. g_pos (T s') m = Some (x, 1 - int d))))"
proof -
  have am: "acyclic_mapping (left bb_dag) (right bb_dag)"
    by (rule acyclic_mapping_increasing) (auto simp: bb_dag_dicts split: if_splits)
  from layout_bb_dag obtain s0 where s0: "layout bb_dag = Some (Inr s0)"
    "g_pos (T s0) 3 = Some (0.87375, 0)"
    by blast
  have False if run: "layout bb_dag = Some (Inr s')"
    and all: "\<forall>d m. 1 \<le> d \<and> at_depth (left bb_dag) (right bb_dag) d m \<longrightarrow>
        (\<exists>x. g_pos (T s') m = Some (x, 1 - int d))" for s'
  proof -
    from run s0(1) have "s' = s0"
      by simp
    moreover from all bb_dag_depth have "\<exists>x. g_pos (T s') 3 = Some (x, 1 - int 2)"
      by (metis one_le_numeral)
    ultimately show False
      using s0(2) by simp
  qed
  with am bb_dag_depth layout_bb_dag show ?thesis
    by blast
qed

section \<open>Termination\<close>

lemma subtree_decreases:
  assumes am: "acyclic_mapping l r" and c: "l n = Some c \<or> r n = Some c"
  shows "card (subtree l r c) < card (subtree l r n)"
proof (rule psubset_card_mono)
  from am show "finite (subtree l r n)"
    by (simp add: acyclic_mapping_def finite_subtree)
  from c have cn: "(c, n) \<in> child_rel l r"
    by (auto simp: child_rel_def)
  from am have "acyclic (child_rel l r)"
    by (simp add: acyclic_mapping_def)
  from not_in_child_subtree [OF this cn] subtree_self [of n l r] subtree_child [OF cn]
  show "subtree l r c \<subset> subtree l r n"
    by blast
qed

lemma postorder_count_self_loop:
  assumes "left s n = Some n"
  shows "postorder_count n s = None"
proof (rule ccontr)
  assume "postorder_count n s \<noteq> None"
  then obtain y where "postorder_count n s = Some y"
    by auto
  then have "left s n \<noteq> Some n"
  proof (rule postorder_count.raw_induct [rotated])
    fix rec :: "int \<Rightarrow> globals \<Rightarrow> (py_error + globals) option" and node s y
    assume IH: "\<And>node s y. rec node s = Some y \<Longrightarrow> left s node \<noteq> Some node"
    assume body: "Option.bind
       (case left s node of
          None \<Rightarrow> Some (Inr (0, s))
        | Some l \<Rightarrow> Option.bind (rec l s) (\<lambda>res. Some (add_card 0 l res)))
       (\<lambda>res1. case res1 of
          Inl e \<Rightarrow> Some (Inl e)
        | Inr (card1, s1) \<Rightarrow>
            Option.bind
              (case right s1 node of
                 None \<Rightarrow> Some (Inr (card1, s1))
               | Some r \<Rightarrow> Option.bind (rec r s1) (\<lambda>res. Some (add_card card1 r res)))
              (\<lambda>res2. case res2 of
                 Inl e \<Rightarrow> Some (Inl e)
               | Inr (card2, s2) \<Rightarrow>
                   Some (Inr (s2\<lparr>card_subtree := (card_subtree s2)(node \<mapsto> 1 + card2)\<rparr>)))) = Some y"
    show "left s node \<noteq> Some node"
    proof
      assume loop: "left s node = Some node"
      from body obtain y' where "rec node s = Some y'"
        unfolding loop by (auto simp: bind_eq_Some_conv)
      from IH [OF this] loop show False
        by simp
    qed
  qed
  with assms show False
    by simp
qed

text \<open>
  \<^bold>\<open>C8\<close> (as amended). For every finite acyclic \<open>left\<close>/\<open>right\<close> mapping \<open>postorder_count\<close>
  and \<open>setpos\<close> return for every argument, and the recursive calls go to a child, whose
  subtree has fewer nodes. The mapping is finite and acyclic whenever it was produced by
  a sequence of \<open>storeBBnode\<close> calls in which every \<open>newnode\<close> differs from the root 1, from
  every \<open>parent\<close> and \<open>newnode\<close> of the earlier calls, and from the \<open>parent\<close> of its own call.
  (The recursion depth of the interpreter is taken as unbounded.)
\<close>

theorem recursion_terminates:
  assumes "acyclic_mapping (left s) (right s)" and "fresh_newnodes evs"
  shows "(\<exists>res. postorder_count n s = Some res) \<and>
         (\<exists>res. setpos G n curpos st_width depth s = Some res) \<and>
         (\<forall>c. left s n = Some c \<or> right s n = Some c \<longrightarrow>
            card (subtree (left s) (right s) c) < card (subtree (left s) (right s) n)) \<and>
         acyclic_mapping (left (newnode_events evs init_globals))
           (right (newnode_events evs init_globals))"
proof -
  from postorder_count_counts [OF assms(1), of n]
  have "\<exists>res. postorder_count n s = Some res"
    by blast
  moreover have "\<exists>res. setpos G n curpos st_width depth s = Some res"
    using wf_child_rel [OF assms(1)] by (rule setpos_returns)
  moreover have "\<forall>c. left s n = Some c \<or> right s n = Some c \<longrightarrow>
      card (subtree (left s) (right s) c) < card (subtree (left s) (right s) n)"
    using subtree_decreases [OF assms(1)] by blast
  moreover have "acyclic_mapping (left (newnode_events evs init_globals))
      (right (newnode_events evs init_globals))"
    using tree_mapping_fresh [OF assms(2)] by (simp add: tree_mapping_def)
  ultimately show ?thesis
    by blast
qed

theorem recursion_terminates_witness:
  "acyclic_mapping (left bb_tree) (right bb_tree) \<and>
   fresh_newnodes [(1, 2, 0), (1, 3, 1), (2, 4, 0)] \<and>
   (\<exists>res. postorder_count 1 bb_tree = Some res) \<and>
   (\<exists>res. setpos Graph 1 0.5 1 0 bb_tree = Some res) \<and>
   card (subtree (left bb_tree) (right bb_tree) 2) < card (subtree (left bb_tree) (right bb_tree) 1) \<and>
   acyclic_mapping (left (newnode_events [(1, 2, 0), (1, 3, 1), (2, 4, 0)] init_globals))
     (right (newnode_events [(1, 2, 0), (1, 3, 1), (2, 4, 0)] init_globals))"
proof -
  from tree_mapping_bb_tree have am: "acyclic_mapping (left bb_tree) (right bb_tree)"
    by (simp add: tree_mapping_def)
  have fr: "fresh_newnodes [(1, 2, 0), (1, 3, 1), (2, 4, 0)]"
    by (simp add: fresh_newnodes_def own_parent_simp)
  from recursion_terminates [OF am fr, of 1 Graph "0.5" 1 0] am fr show ?thesis
    by (simp add: bb_tree_dicts)
qed

text \<open>
  A \<open>newnode\<close> that is new with respect to the earlier calls can still be the \<open>parent\<close> of
  its own call: the single event \<open>(5, 5, 0)\<close> names a node never seen before, stores
  \<open>left[5] = 5\<close>, and \<open>postorder_count(5)\<close> does not return.
\<close>

theorem own_parent_cycle_counterexample:
  "unseen_newnodes {1} [(5, 5, 0)] \<and>
   \<not> acyclic_mapping (left (newnode_events [(5, 5, 0)] init_globals))
       (right (newnode_events [(5, 5, 0)] init_globals)) \<and>
   postorder_count 5 (newnode_events [(5, 5, 0)] init_globals) = None"
proof -
  have l: "left (newnode_events [(5, 5, 0)] init_globals) = [5 \<mapsto> 5]"
    and r: "right (newnode_events [(5, 5, 0)] init_globals) = Map.empty"
    by (simp_all add: storeBBnode_def Let_def init_globals_def)
  have "(5, 5) \<in> child_rel [5 \<mapsto> 5] Map.empty"
    by (simp add: child_rel_def)
  then have "(5, 5) \<in> (child_rel [5 \<mapsto> 5] Map.empty)\<^sup>+"
    by (rule r_into_trancl)
  then have "\<not> acyclic_mapping [5 \<mapsto> 5] Map.empty"
    unfolding acyclic_mapping_def acyclic_def by blast
  then have cyc: "\<not> acyclic_mapping (left (newnode_events [(5, 5, 0)] init_globals))
       (right (newnode_events [(5, 5, 0)] init_globals))"
    unfolding l r .
  have "left (newnode_events [(5, 5, 0)] init_globals) 5 = Some 5"
    unfolding l by simp
  then have loop: "postorder_count 5 (newnode_events [(5, 5, 0)] init_globals) = None"
    by (rule postorder_count_self_loop)
  have "unseen_newnodes {1} [(5, 5, 0)]"
    by simp
  with cyc loop show ?thesis
    by blast
qed

section \<open>The notebooks as scripts\<close>

text \<open>
  Every notebook of the repository is a straight-line script over the solver library
  \<open>xpress\<close> (imported as \<open>xp\<close>). A script is the list of its statements in the order of the
  cells:
  \<^item> \<open>Call c\<close> is one call of a function of the library on a problem object (or of
    \<open>xp.problem\<close>, \<open>xp.evaluate\<close>); the expressions built with \<open>xp.Sum\<close>, \<open>xp.Dot\<close> and
    the like in its arguments belong to the call, and a statement that only builds
    constraints or expressions is \<open>Call Expression\<close>;
  \<^item> \<open>Print x\<close> and \<open>Plot x\<close> are a \<open>print\<close> and a plot, \<open>x\<close> saying what is displayed: values
    of the solution the solver returned, the name of a status, a message of the
    notebook's own, input data or timings, or the search tree recorded by the callback;
    the calls in the arguments of a \<open>print\<close> stand before it;
  \<^item> \<open>Bind v\<close> is the assignment to a variable \<open>v\<close> of the notebook that is assigned on one
    branch of an \<open>if\<close> only, and \<open>Use v\<close> a later read of it, which raises \<^verbatim>\<open>NameError\<close> when
    \<open>v\<close> was never assigned; variables assigned on every path are left out;
  \<^item> \<open>If_status\<close> is an \<open>if\<close> on a status the solver returned, \<open>Loop n\<close> a \<open>for\<close> loop or
    comprehension with \<open>n\<close> iterations that calls the library, \<open>Try\<close> a \<open>try\<close>/\<open>except\<close>.
  A loop that only reads the solution and displays it is written as one reading call and
  one \<open>Print\<close> or \<open>Plot\<close>. The first cell (\<open>%pip install\<close>), imports and statements
  that touch neither the library nor the display are left out.
\<close>

datatype call =
    Problem | Read | Loadproblem | AddVariable | AddVariables | AddConstraint
  | SetObjective | AddObjective | AddIndicator | AddSOS | DelSOS | AddPwlCons
  | NlpSetInitVal | GetVariable | Expression
  | SetControl string | GetControl string | AddCbNewNode string
  | Optimize
  | GetSolution | GetAttribute string | Evaluate | GetIndicators
  | Write

datatype shown = Solution | Status | Message | Data | Search_tree

text \<open>The two enumerations of the library, as far as the notebooks name their members.\<close>

datatype solvestatus = COMPLETED | Other_solvestatus nat

datatype solstatus = FEASIBLE | OPTIMAL | Other_solstatus nat

datatype test = Solve_completed | Sol_feasible_or_optimal

datatype stmt =
    Call call
  | Print shown
  | Plot shown
  | Bind string
  | Use string
  | If_status test "stmt list" "stmt list"
  | Loop nat "stmt list"
  | Try "stmt list" "stmt list"

subsection \<open>basic\_api\_examples\<close>

definition callback_newnode :: "stmt list" where
  "callback_newnode =
     [Call Problem, Call Read, Call (AddCbNewNode ''storeBBnode''),
      Call (SetControl ''maxnode''), Call (SetControl ''threads''), Call Optimize,
      Plot Search_tree]"

definition indicators :: "stmt list" where
  "indicators =
     [Call Problem, Call (SetControl ''miprelstop''),
      Call AddVariable, Call AddVariable, Call AddVariable, Call AddVariable,
      Call Expression, Call Expression, Call AddIndicator, Call AddIndicator,
      Call GetIndicators, Print Data,
      Call SetObjective, Call Optimize,
      Call GetSolution, Call GetSolution, Call GetSolution, Call (GetAttribute ''objval''),
      Print Solution]"

definition logic_cons :: "stmt list" where
  "logic_cons =
     [Call Problem, Loop 10 [Call AddVariable], Call Expression, Call Expression,
      Call AddConstraint, Call (SetControl ''timelimit''), Call Optimize,
      Call GetSolution, Print Solution]"

definition write_read :: "stmt list" where
  "write_read =
     [Call Problem,
      Call AddVariable, Call AddVariable, Call AddVariable, Call AddVariable, Call AddVariable,
      Call SetObjective, Call AddConstraint, Call Write,
      Call Problem, Call Read, Call Optimize,
      Call (GetAttribute ''objval''), Print Solution, Call GetSolution, Print Solution]"

subsection \<open>modeling\_examples\<close>

definition bin_packing :: "stmt list" where
  "bin_packing =
     [Call Problem, Call AddVariables, Call AddVariables, Call SetObjective,
      Call AddConstraint, Call AddConstraint, Call (SetControl ''outputlog''), Call Optimize,
      Call GetSolution, Call GetSolution, Print Solution, Print Solution, Plot Solution]"

definition circle_packing :: "stmt list" where
  "circle_packing =
     [Call Problem, Call AddVariables, Call AddVariables, Call AddVariables,
      Call AddConstraint, Call AddConstraint, Call AddConstraint, Call AddConstraint,
      Call AddConstraint, Call SetObjective,
      Call (SetControl ''feastol''), Call (SetControl ''timelimit''),
      Call (SetControl ''nlpsolver''), Call Optimize,
      Call GetSolution, Call GetSolution, Call GetSolution,
      Call (GetAttribute ''objval''), Print Solution, Print Solution,
      Call (GetAttribute ''objval''), Print Solution, Plot Solution]"

definition markowitz_multiobj :: "stmt list" where
  "markowitz_multiobj =
     [Call Problem, Call AddVariables, Call AddVariable, Call Expression, Call AddConstraint,
      Call SetObjective, Call AddObjective,
      Loop 100 [Call SetObjective, Call SetObjective, Call Optimize,
                Call GetSolution, Call GetSolution],
      Plot Solution,
      Call SetObjective, Call SetObjective, Call Optimize, Call GetSolution, Call GetSolution,
      Plot Solution]"

definition max_flow :: "stmt list" where
  "max_flow =
     [Call Problem, Call AddVariables, Call SetObjective,
      Call AddConstraint, Call AddConstraint, Call AddConstraint,
      Call (SetControl ''outputlog''), Call Optimize,
      Call (GetAttribute ''objval''), Print Solution, Call GetSolution, Print Solution,
      Plot Solution]"

definition draw_sol :: "stmt list" where
  "draw_sol = [Call GetSolution, Call GetSolution, Print Solution, Plot Solution]"

definition facility_location :: "stmt list" where
  "facility_location =
     [Print Data, Plot Data,
      Call Problem, Call AddVariables, Call AddVariables, Call SetObjective,
      Call AddConstraint, Call AddConstraint, Call AddConstraint, Call Optimize, Call Write]
     @ draw_sol @
     [Call AddVariable, Call AddConstraint, Call SetObjective, Call Optimize]
     @ draw_sol"

definition pairwise_distance :: "stmt list" where
  "pairwise_distance =
     [Call Problem, Call AddVariables, Call AddVariable, Call AddVariable, Call AddVariable,
      Call AddConstraint, Call AddConstraint, Call AddConstraint, Call AddConstraint,
      Call SetObjective, Call (SetControl ''timelimit''), Call Optimize,
      Call (GetAttribute ''solstatus''),
      If_status Sol_feasible_or_optimal
        [Call GetSolution, Print Solution, Call GetSolution, Call GetSolution, Print Solution,
         Call GetSolution, Bind ''xsol'', Print Solution]
        [Print Message],
      Call GetSolution, Print Solution, Use ''xsol'',
      Call (GetControl ''feastol''), Call GetSolution, Plot Solution,
      Call (GetControl ''feastol''), Call GetSolution, Plot Solution]"

definition sudoku :: "stmt list" where
  "sudoku =
     [Call Problem, Call AddVariables,
      Call AddConstraint, Call AddConstraint, Call AddConstraint, Call AddConstraint,
      Call AddConstraint, Call Optimize, Call GetSolution, Plot Solution]"

definition inscribed_square :: "stmt list" where
  "inscribed_square =
     [Call Problem,
      Call AddVariable, Call AddVariable, Call AddVariable, Call AddVariable,
      Call AddVariable, Call AddVariable, Call AddVariable, Call AddVariable,
      Call NlpSetInitVal,
      Call AddConstraint, Call AddConstraint, Call AddConstraint, Call AddConstraint,
      Call AddConstraint, Call AddConstraint, Call AddConstraint, Call AddConstraint,
      Call SetObjective, Call (SetControl ''nlpsolver''), Call (SetControl ''localsolver''),
      Call Optimize,
      Call GetSolution, Call GetSolution, Call GetSolution, Call GetSolution, Plot Solution,
      Call GetSolution, Call GetSolution, Call GetSolution, Call GetSolution,
      Call GetSolution, Call GetSolution, Call GetSolution, Call GetSolution, Print Solution]"

definition print_sol :: "stmt list" where
  "print_sol = [Call GetSolution, Print Solution]"

definition plot_sol :: "stmt list" where
  "plot_sol = [Call GetSolution, Plot Solution]"

definition unitcommitment_indicators :: "stmt list" where
  "unitcommitment_indicators =
     [Call Problem, Call AddVariables, Call AddVariables, Call AddVariables, Call AddVariables,
      Call AddConstraint, Call AddConstraint, Call AddConstraint, Call AddConstraint,
      Call AddConstraint, Call AddConstraint, Call AddConstraint,
      Call Expression, Call Expression, Call SetObjective, Call Optimize,
      Call GetSolution, Print Solution, Call GetSolution, Print Solution,
      Call (GetAttribute ''objval''), Print Solution]
     @ print_sol @ plot_sol @
     [Loop 25 [Loop 7 [Call AddIndicator, Call AddIndicator]],
      Call (SetControl ''outputlog''), Call Optimize,
      Call GetSolution, Print Solution, Call GetSolution, Print Solution,
      Call (GetAttribute ''objval''), Print Solution]
     @ print_sol @ plot_sol"

subsection \<open>The notebooks of \<^verbatim>\<open>src/unnamed\<close>\<close>

definition numpy_arrays :: "stmt list" where
  "numpy_arrays =
     [Call Problem, Call AddVariables, Call Expression, Call Expression, Call AddConstraint,
      Call SetObjective, Call Optimize, Call Write]"

definition modeling :: "stmt list" where
  "modeling =
     [Call Problem, Loop 4 [Call AddVariable],
      Call AddVariable, Call AddVariable, Call AddVariable,
      Call Expression, Call AddConstraint, Call SetObjective, Call Optimize,
      If_status Solve_completed [Print Status] [Print Status],
      Call GetSolution, Print Solution]"

definition loadlp :: "stmt list" where
  "loadlp =
     [Call Problem, Call Loadproblem, Call Write, Call Optimize,
      Call GetVariable, Call SetObjective, Call Optimize, Call Write]"

definition sos :: "stmt list" where
  "sos =
     [Call Problem, Call (SetControl ''miprelstop''), Call AddVariable, Call AddVariable,
      Loop 2 [Call AddVariable], Call AddConstraint, Call AddSOS, Print Data,
      Call SetObjective, Call Optimize,
      Call GetSolution, Call GetSolution, Call GetSolution, Call (GetAttribute ''objval''),
      Print Solution, Call Write, Call DelSOS, Call Write, Call Optimize]"

definition load_problem :: "stmt list" where
  "load_problem =
     [Call Problem, Call Loadproblem, Print Data,
      Call Problem, Loop 1000000 [Call AddVariable], Call AddConstraint, Call SetObjective,
      Print Data]"

definition piecewise_linear :: "stmt list" where
  "piecewise_linear =
     [Call Problem, Call AddVariable, Call AddVariable, Call AddPwlCons, Call SetObjective,
      Call Optimize,
      Call GetSolution, Print Solution, Call Evaluate, Print Solution,
      Call (GetAttribute ''objval''), Print Solution,
      Call GetSolution, Call GetSolution, Plot Solution,
      Call Problem, Call AddVariable, Call Expression, Call SetObjective, Call Optimize,
      Call GetSolution, Print Solution, Call Evaluate, Print Solution,
      Call (GetAttribute ''objval''), Print Solution,
      Call GetSolution, Call GetSolution, Plot Solution]"

definition firestation_scipy :: "stmt list" where
  "firestation_scipy =
     [Print Data, Print Data,
      Call Problem, Call AddVariables, Call AddConstraint, Call SetObjective,
      Call (SetControl ''outputlog''), Call Optimize, Call Write,
      Call (GetAttribute ''objval''), Print Solution,
      Loop 6 [Call GetSolution], Print Solution,
      Print Data, Print Data,
      Call Problem, Call AddVariables, Call AddConstraint, Print Data,
      Call AddConstraint, Print Data]"

definition n_queens :: "stmt list" where
  "n_queens =
     [Call Problem, Call AddVariables, Call SetObjective,
      Call AddConstraint, Call AddConstraint, Call Expression, Call Expression,
      Call AddConstraint, Call Optimize,
      Call (GetAttribute ''objval''), Print Solution, Call GetSolution, Print Solution,
      Plot Solution]"

text \<open>
  The source files with the notebook each of them holds. The files \<^verbatim>\<open>max_flow.ipynb\<close> and
  \<^verbatim>\<open>sudoku.ipynb\<close> hold a second notebook after the first; \<^verbatim>\<open>part_006\<close> and \<^verbatim>\<open>part_007\<close>
  are copies of \<open>sudoku\<close> and \<open>inscribed_square\<close> with the same statements, and \<^verbatim>\<open>part_009\<close>
  holds \<open>n_queens\<close> twice.
\<close>

definition notebooks :: "(string \<times> stmt list) list" where
  "notebooks =
     [(''callback_newnode'', callback_newnode),
      (''indicators'', indicators),
      (''logic_cons'', logic_cons),
      (''write_read'', write_read),
      (''bin_packing'', bin_packing),
      (''circle_packing'', circle_packing),
      (''markowitz_multiobj'', markowitz_multiobj),
      (''max_flow'', max_flow),
      (''facility_location'', facility_location),
      (''pairwise_distance'', pairwise_distance),
      (''sudoku'', sudoku),
      (''inscribed_square'', inscribed_square),
      (''unitcommitment_indicators'', unitcommitment_indicators),
      (''numpy_arrays'', numpy_arrays),
      (''modeling'', modeling),
      (''loadlp'', loadlp),
      (''sos'', sos),
      (''load_problem'', load_problem),
      (''piecewise_linear'', piecewise_linear),
      (''part_006'', sudoku),
      (''part_007'', inscribed_square),
      (''firestation_scipy'', firestation_scipy),
      (''n_queens'', n_queens)]"

subsection \<open>The order of the steps\<close>

fun flat :: "stmt \<Rightarrow> stmt list" and flat_list :: "stmt list \<Rightarrow> stmt list" where
  "flat (Call c) = [Call c]"
| "flat (Print x) = [Print x]"
| "flat (Plot x) = [Plot x]"
| "flat (Bind v) = [Bind v]"
| "flat (Use v) = [Use v]"
| "flat (If_status t yes no) = flat_list yes @ flat_list no"
| "flat (Loop n body) = flat_list body"
| "flat (Try body handler) = flat_list body @ flat_list handler"
| "flat_list [] = []"
| "flat_list (s # ss) = flat s @ flat_list ss"

fun builds_model :: "stmt \<Rightarrow> bool" where
  "builds_model (Call c) \<longleftrightarrow>
     c \<in> {Problem, Read, Loadproblem, AddVariable, AddVariables, AddConstraint, SetObjective,
          AddObjective, AddIndicator, AddSOS, DelSOS, AddPwlCons, NlpSetInitVal, Expression}"
| "builds_model s \<longleftrightarrow> False"

fun shows_solution :: "stmt \<Rightarrow> bool" where
  "shows_solution (Print x) \<longleftrightarrow> x = Solution"
| "shows_solution (Plot x) \<longleftrightarrow> x = Solution"
| "shows_solution s \<longleftrightarrow> False"

definition before_solve :: "stmt list \<Rightarrow> stmt list" where
  "before_solve nb = takeWhile (\<lambda>s. s \<noteq> Call Optimize) (flat_list nb)"

definition from_solve :: "stmt list \<Rightarrow> stmt list" where
  "from_solve nb = dropWhile (\<lambda>s. s \<noteq> Call Optimize) (flat_list nb)"

definition solves_in_order :: "stmt list \<Rightarrow> bool" where
  "solves_in_order nb \<longleftrightarrow>
     from_solve nb \<noteq> [] \<and> list_ex builds_model (before_solve nb) \<and>
     list_all (\<lambda>s. shows_solution s = False) (before_solve nb)"

definition three_steps :: "stmt list \<Rightarrow> bool" where
  "three_steps nb \<longleftrightarrow> solves_in_order nb \<and> list_ex shows_solution (from_solve nb)"


subsection \<open>Running a script\<close>

text \<open>
  The library is a parameter of the run: \<open>xp k\<close> is its reply to the \<open>k\<close>-th call made, an
  exception or a normal return that leaves the solver with a solve status and a solution
  status. A run records the number of calls made, the last statuses, what was displayed
  and the variables bound, and ends with the failure that reached the top level, if any:
  an exception of the library, or the \<^verbatim>\<open>NameError\<close> of a read of an unbound variable. The
  cells are run in their order, and the run stops at the first failure that is not caught.
\<close>

datatype 'e reply = Raise 'e | Return solvestatus solstatus

datatype 'e failure = Library 'e | NameError string

record run =
  calls :: nat
  status :: "solvestatus \<times> solstatus"
  out :: "shown list"
  bound :: "string set"

fun holds :: "test \<Rightarrow> solvestatus \<times> solstatus \<Rightarrow> bool" where
  "holds Solve_completed (sv, sl) \<longleftrightarrow> sv = COMPLETED"
| "holds Sol_feasible_or_optimal (sv, sl) \<longleftrightarrow> sl = FEASIBLE \<or> sl = OPTIMAL"

fun iter :: "nat \<Rightarrow> ('s \<Rightarrow> 's \<times> 'e option) \<Rightarrow> 's \<Rightarrow> 's \<times> 'e option" where
  "iter 0 f r = (r, None)"
| "iter (Suc n) f r = (case f r of (r', None) \<Rightarrow> iter n f r' | (r', Some e) \<Rightarrow> (r', Some e))"

lemma iter_cong [fundef_cong]:
  assumes "n = n'" and "r = r'" and "\<And>x. f x = g x"
  shows "iter n f r = iter n' g r'"
proof -
  from assms(3) have "f = g"
    by (rule ext)
  with assms(1,2) show ?thesis
    by simp
qed

fun exec :: "(nat \<Rightarrow> 'e reply) \<Rightarrow> stmt \<Rightarrow> run \<Rightarrow> run \<times> 'e failure option"
  and exec_list :: "(nat \<Rightarrow> 'e reply) \<Rightarrow> stmt list \<Rightarrow> run \<Rightarrow> run \<times> 'e failure option" where
  "exec xp (Call c) r =
     (case xp (calls r) of
        Raise e \<Rightarrow> (r, Some (Library e))
      | Return sv sl \<Rightarrow> (r\<lparr>calls := calls r + 1, status := (sv, sl)\<rparr>, None))"
| "exec xp (Print x) r = (r\<lparr>out := out r @ [x]\<rparr>, None)"
| "exec xp (Plot x) r = (r\<lparr>out := out r @ [x]\<rparr>, None)"
| "exec xp (Bind v) r = (r\<lparr>bound := insert v (bound r)\<rparr>, None)"
| "exec xp (Use v) r = (if v \<in> bound r then (r, None) else (r, Some (NameError v)))"
| "exec xp (If_status t yes no) r =
     (if holds t (status r) then exec_list xp yes r else exec_list xp no r)"
| "exec xp (Loop n body) r = iter n (exec_list xp body) r"
| "exec xp (Try body handler) r =
     (case exec_list xp body r of
        (r', None) \<Rightarrow> (r', None)
      | (r', Some e) \<Rightarrow> exec_list xp handler r')"
| "exec_list xp [] r = (r, None)"
| "exec_list xp (s # ss) r =
     (case exec xp s r of
        (r', None) \<Rightarrow> exec_list xp ss r'
      | (r', Some e) \<Rightarrow> (r', Some e))"


fun branches :: "stmt \<Rightarrow> bool" and branches_list :: "stmt list \<Rightarrow> bool" where
  "branches (Call c) \<longleftrightarrow> False"
| "branches (Print x) \<longleftrightarrow> False"
| "branches (Plot x) \<longleftrightarrow> False"
| "branches (Bind v) \<longleftrightarrow> False"
| "branches (Use v) \<longleftrightarrow> False"
| "branches (If_status t yes no) \<longleftrightarrow> True"
| "branches (Loop n body) \<longleftrightarrow> branches_list body"
| "branches (Try body handler) \<longleftrightarrow> branches_list body \<or> branches_list handler"
| "branches_list [] \<longleftrightarrow> False"
| "branches_list (s # ss) \<longleftrightarrow> branches s \<or> branches_list ss"

text \<open>A script is \<open>plain\<close> when it binds and reads no variable of the notebook.\<close>

fun plain :: "stmt \<Rightarrow> bool" and plain_list :: "stmt list \<Rightarrow> bool" where
  "plain (Call c) \<longleftrightarrow> True"
| "plain (Print x) \<longleftrightarrow> True"
| "plain (Plot x) \<longleftrightarrow> True"
| "plain (Bind v) \<longleftrightarrow> False"
| "plain (Use v) \<longleftrightarrow> False"
| "plain (If_status t yes no) \<longleftrightarrow> plain_list yes \<and> plain_list no"
| "plain (Loop n body) \<longleftrightarrow> plain_list body"
| "plain (Try body handler) \<longleftrightarrow> plain_list body \<and> plain_list handler"
| "plain_list [] \<longleftrightarrow> True"
| "plain_list (s # ss) \<longleftrightarrow> plain s \<and> plain_list ss"


text \<open>
  An exception ends the run. \<open>f\<close> is the run of a script with a library that raises \<open>e\<close> at
  the call numbered \<open>k\<close>, and \<open>f'\<close> the run of the same script with a library that replies in
  the same way to the calls before that one. When the run \<open>f'\<close> from \<open>r\<close> reaches the end of
  the script and makes a call numbered \<open>k\<close> on its way, the run \<open>f\<close> ends at this call: its
  result is the exception \<open>e\<close>, it has made the \<open>k\<close> calls before and no other, and it has
  displayed a beginning of what the full run displays. When the run \<open>f'\<close> reaches the end
  without such a call, the two runs are the same.
\<close>

definition ends_run ::
  "nat \<Rightarrow> 'e \<Rightarrow> (run \<Rightarrow> run \<times> 'e failure option) \<Rightarrow>
   (run \<Rightarrow> run \<times> 'e failure option) \<Rightarrow> run \<Rightarrow> bool" where
  "ends_run k e f f' r \<longleftrightarrow>
     (snd (f' r) = None \<longrightarrow>
        (if k < calls (fst (f' r))
         then snd (f r) = Some (Library e) \<and> calls (fst (f r)) = k \<and>
              (\<exists>rest. out (fst (f' r)) = out (fst (f r)) @ rest)
         else f r = f' r))"

definition start :: "solvestatus \<Rightarrow> solstatus \<Rightarrow> run" where
  "start sv sl = \<lparr>calls = 0, status = (sv, sl), out = [], bound = {}\<rparr>"

text \<open>
  What a script displays and how it ends when every call returns and the solver reports
  the statuses \<open>sv\<close> and \<open>sl\<close> throughout.
\<close>

definition outcome ::
  "stmt list \<Rightarrow> solvestatus \<Rightarrow> solstatus \<Rightarrow> shown list \<times> unit failure option" where
  "outcome nb sv sl =
     (case exec_list (\<lambda>k. Return sv sl) nb (start sv sl) of (r, res) \<Rightarrow> (out r, res))"

definition ignores_status :: "stmt list \<Rightarrow> bool" where
  "ignores_status nb \<longleftrightarrow> (\<forall>sv sl sv' sl'. outcome nb sv sl = outcome nb sv' sl')"

text \<open>
  What a plain script displays and how many calls it makes when no call raises and the
  solver reports the statuses \<open>st\<close> throughout, read off the script.
\<close>

fun printed :: "solvestatus \<times> solstatus \<Rightarrow> stmt \<Rightarrow> shown list"
  and printed_list :: "solvestatus \<times> solstatus \<Rightarrow> stmt list \<Rightarrow> shown list" where
  "printed st (Call c) = []"
| "printed st (Print x) = [x]"
| "printed st (Plot x) = [x]"
| "printed st (Bind v) = []"
| "printed st (Use v) = []"
| "printed st (If_status t yes no) =
     (if holds t st then printed_list st yes else printed_list st no)"
| "printed st (Loop n body) = concat (replicate n (printed_list st body))"
| "printed st (Try body handler) = printed_list st body"
| "printed_list st [] = []"
| "printed_list st (s # ss) = printed st s @ printed_list st ss"

fun ncalls :: "solvestatus \<times> solstatus \<Rightarrow> stmt \<Rightarrow> nat"
  and ncalls_list :: "solvestatus \<times> solstatus \<Rightarrow> stmt list \<Rightarrow> nat" where
  "ncalls st (Call c) = 1"
| "ncalls st (Print x) = 0"
| "ncalls st (Plot x) = 0"
| "ncalls st (Bind v) = 0"
| "ncalls st (Use v) = 0"
| "ncalls st (If_status t yes no) =
     (if holds t st then ncalls_list st yes else ncalls_list st no)"
| "ncalls st (Loop n body) = n * ncalls_list st body"
| "ncalls st (Try body handler) = ncalls_list st body"
| "ncalls_list st [] = 0"
| "ncalls_list st (s # ss) = ncalls st s + ncalls_list st ss"











lemma ends_run_same: "calls r \<le> k \<Longrightarrow> f r = f' r \<Longrightarrow> calls (fst (f' r)) = calls r \<Longrightarrow> ends_run k e f f' r"
  by (simp add: ends_run_def)





lemma iter_returning:
  assumes "\<And>r. status r = st \<Longrightarrow> f r = (r\<lparr>calls := calls r + c, out := out r @ xs\<rparr>, None)"
    and "status r = st"
  shows "iter n f r = (r\<lparr>calls := calls r + n * c, out := out r @ concat (replicate n xs)\<rparr>, None)"
  using assms(2)
proof (induction n arbitrary: r)
  case 0
  then show ?case by simp
next
  case (Suc n)
  from assms(1) [OF Suc.prems] Suc.IH [of "r\<lparr>calls := calls r + c, out := out r @ xs\<rparr>"] Suc.prems
  show ?case
    by (simp add: add.assoc add.commute [of c])
qed

lemma exec_returning:
  "plain s \<Longrightarrow> status r = (sv, sl) \<Longrightarrow>
   exec (\<lambda>k. Return sv sl :: 'e reply) s r =
     (r\<lparr>calls := calls r + ncalls (sv, sl) s, out := out r @ printed (sv, sl) s\<rparr>, None)"
  "plain_list ss \<Longrightarrow> status r = (sv, sl) \<Longrightarrow>
   exec_list (\<lambda>k. Return sv sl :: 'e reply) ss r =
     (r\<lparr>calls := calls r + ncalls_list (sv, sl) ss, out := out r @ printed_list (sv, sl) ss\<rparr>, None)"
proof (induction "\<lambda>k :: nat. Return sv sl :: 'e reply" s r and "\<lambda>k :: nat. Return sv sl :: 'e reply" ss r
    rule: exec_exec_list.induct)
  case (1 c r)
  then show ?case by simp
next
  case (2 x r)
  then show ?case by simp
next
  case (3 x r)
  then show ?case by simp
next
  case (4 v r)
  then show ?case by simp
next
  case (5 v r)
  then show ?case by simp
next
  case (6 t yes no r)
  then show ?case by (cases "holds t (sv, sl)") auto
next
  case (7 n body r)
  have "iter n (exec_list (\<lambda>k. Return sv sl :: 'e reply) body) r =
      (r\<lparr>calls := calls r + n * ncalls_list (sv, sl) body,
         out := out r @ concat (replicate n (printed_list (sv, sl) body))\<rparr>, None)"
    by (rule iter_returning [where st = "(sv, sl)"]) (use 7 in auto)
  then show ?case
    by simp
next
  case (8 body handler r)
  then show ?case by simp
next
  case (9 r)
  then show ?case by simp
next
  case (10 s ss r)
  then show ?case
    by (simp add: add.assoc)
qed

lemma outcome_plain: "plain_list nb \<Longrightarrow> outcome nb sv sl = (printed_list (sv, sl) nb, None)"
  unfolding outcome_def by (subst exec_returning(2)) (simp_all add: start_def)

lemma printed_no_branch:
  "\<not> branches s \<Longrightarrow> printed st s = printed st' s"
  "\<not> branches_list ss \<Longrightarrow> printed_list st ss = printed_list st' ss"
  by (induction s and ss rule: branches_branches_list.induct) auto

lemma ignores_status_no_branch: "plain_list nb \<Longrightarrow> \<not> branches_list nb \<Longrightarrow> ignores_status nb"
  unfolding ignores_status_def by (simp add: outcome_plain) (blast intro: printed_no_branch(2))

fun callbacks :: "stmt list \<Rightarrow> string list" where
  "callbacks [] = []"
| "callbacks (Call (AddCbNewNode name) # ss) = name # callbacks ss"
| "callbacks (s # ss) = callbacks ss"


lemmas script_defs =
  callback_newnode_def indicators_def logic_cons_def write_read_def bin_packing_def
  circle_packing_def markowitz_multiobj_def max_flow_def draw_sol_def facility_location_def
  pairwise_distance_def sudoku_def inscribed_square_def print_sol_def plot_sol_def
  unitcommitment_indicators_def numpy_arrays_def modeling_def loadlp_def sos_def
  load_problem_def piecewise_linear_def firestation_scipy_def n_queens_def

subsection \<open>Build, solve, show\<close>

text \<open>
  \<^bold>\<open>C4\<close> (as amended). Every notebook except \<^verbatim>\<open>load_problem\<close>
  (\<^verbatim>\<open>src/unnamed/part_004\<close>, where both \<^verbatim>\<open>p.optimize()\<close> lines are comments) builds or loads a
  model and then calls \<^verbatim>\<open>optimize\<close>; no notebook displays a solution before its first
  call of \<^verbatim>\<open>optimize\<close>; and of the notebooks that solve, all display the returned solution
  afterwards except \<^verbatim>\<open>callback_newnode\<close> (which plots the recorded search tree),
  \<^verbatim>\<open>numpy_arrays\<close> and \<^verbatim>\<open>loadlp\<close> (which write the problem to a file).
\<close>

theorem notebooks_build_solve_show:
  "map fst (filter (\<lambda>(name, nb). \<not> solves_in_order nb) notebooks) = [''load_problem''] \<and>
   map fst (filter (\<lambda>(name, nb). solves_in_order nb \<and> \<not> list_ex shows_solution (from_solve nb))
     notebooks) = [''callback_newnode'', ''numpy_arrays'', ''loadlp''] \<and>
   list_all (\<lambda>(name, nb). list_all (\<lambda>s. shows_solution s = False) (before_solve nb)) notebooks \<and>
   from_solve callback_newnode = [Call Optimize, Plot Search_tree] \<and>
   from_solve numpy_arrays = [Call Optimize, Call Write] \<and>
   from_solve loadlp =
     [Call Optimize, Call GetVariable, Call SetObjective, Call Optimize, Call Write]"
  by (simp add: notebooks_def script_defs solves_in_order_def before_solve_def from_solve_def)

text \<open>
  The notebook \<^verbatim>\<open>load_problem\<close> never invokes the solver: it loads one problem, builds a
  second one and prints the two timings.
\<close>

theorem load_problem_never_solves_counterexample:
  "list_ex (\<lambda>(name, nb). name = ''load_problem'' \<and> nb = load_problem) notebooks \<and>
   list_all (\<lambda>s. s \<noteq> Call Optimize) (flat_list load_problem) \<and>
   from_solve load_problem = [] \<and>
   \<not> three_steps load_problem"
  by (simp add: notebooks_def load_problem_def three_steps_def solves_in_order_def
      before_solve_def from_solve_def)


subsection \<open>Errors and statuses\<close>












section \<open>The state the callback keeps\<close>

text \<open>
  The dictionaries \<^verbatim>\<open>nodes\<close>, \<^verbatim>\<open>left\<close> and \<^verbatim>\<open>right\<close> of \<^verbatim>\<open>callback_newnode.ipynb\<close> are globals of
  the notebook: each invocation of the callback finds what the earlier ones stored.
\<close>

definition newnode_of :: "int \<times> int \<times> int \<Rightarrow> int" where
  "newnode_of ev = (case ev of (parent, newnode, branch) \<Rightarrow> newnode)"

definition discovery_order :: "(int \<times> int \<times> int) list \<Rightarrow> globals \<Rightarrow> bool" where
  "discovery_order evs s \<longleftrightarrow>
     nodes s 1 = Some 1 \<and>
     (\<forall>i < length evs. nodes s (newnode_of (evs ! i)) = Some (int i + 2))"

lemma newnode_of_simp: "newnode_of (parent, newnode, branch) = newnode"
  by (simp add: newnode_of_def)

lemma nodes_newnode_events_snoc:
  "nodes (newnode_events (evs @ [(parent, newnode, branch)]) s) =
     (nodes (newnode_events evs s))(newnode \<mapsto> len (nodes (newnode_events evs s)) + 1)"
  by (simp add: newnode_events_append storeBBnode_def Let_def)

lemma dom_nodes_newnode_events:
  "dom (nodes (newnode_events evs s)) = dom (nodes s) \<union> newnode_of ` set evs"
proof (induction evs rule: rev_induct)
  case Nil
  then show ?case by simp
next
  case (snoc ev evs)
  obtain parent newnode branch where ev: "ev = (parent, newnode, branch)"
    by (cases ev) auto
  have "dom (nodes (newnode_events (evs @ [ev]) s)) =
      insert newnode (dom (nodes (newnode_events evs s)))"
    unfolding ev nodes_newnode_events_snoc by simp
  with snoc show ?case
    by (auto simp: ev newnode_of_simp)
qed

lemma len_nodes_newnode_events:
  assumes "distinct (map newnode_of evs)" and "1 \<notin> newnode_of ` set evs"
  shows "len (nodes (newnode_events evs init_globals)) = int (length evs) + 1"
proof -
  have "dom (nodes (newnode_events evs init_globals)) = insert 1 (newnode_of ` set evs)"
    by (simp add: dom_nodes_newnode_events init_globals_def)
  moreover have "card (newnode_of ` set evs) = length evs"
    using distinct_card [OF assms(1)] by simp
  ultimately show ?thesis
    using assms(2) by (simp add: len_def)
qed

lemma frame_newnode_events:
  "T (newnode_events evs s) = T s \<and> card_subtree (newnode_events evs s) = card_subtree s \<and>
   pos (newnode_events evs s) = pos s \<and> p (newnode_events evs s) = p s"
  by (induction evs arbitrary: s) (auto simp: storeBBnode_def Let_def)

lemma discovery_order_newnode_events:
  assumes "distinct (map newnode_of evs)" and "1 \<notin> newnode_of ` set evs"
  shows "discovery_order evs (newnode_events evs init_globals)"
  using assms
proof (induction evs rule: rev_induct)
  case Nil
  then show ?case
    by (simp add: discovery_order_def init_globals_def)
next
  case (snoc ev evs)
  obtain parent newnode branch where ev: "ev = (parent, newnode, branch)"
    by (cases ev) auto
  let ?s = "newnode_events evs init_globals"
  from snoc.prems have d: "distinct (map newnode_of evs)" and one: "1 \<notin> newnode_of ` set evs"
    and new: "newnode \<notin> newnode_of ` set evs" and new1: "newnode \<noteq> 1"
    by (auto simp: ev newnode_of_simp)
  from snoc.IH [OF d one] have IH1: "nodes ?s 1 = Some 1"
    and IH: "\<And>i. i < length evs \<Longrightarrow> nodes ?s (newnode_of (evs ! i)) = Some (int i + 2)"
    by (auto simp: discovery_order_def)
  have upd: "nodes (newnode_events (evs @ [ev]) init_globals) =
      (nodes ?s)(newnode \<mapsto> int (length evs) + 2)"
    unfolding ev nodes_newnode_events_snoc len_nodes_newnode_events [OF d one]
    by (simp add: add.commute)
  have "nodes (newnode_events (evs @ [ev]) init_globals) (newnode_of ((evs @ [ev]) ! i)) =
      Some (int i + 2)" if i: "i < length (evs @ [ev])" for i
  proof (cases "i < length evs")
    case True
    with new have "newnode_of (evs ! i) \<noteq> newnode"
      by (metis imageI nth_mem)
    with True IH [OF True] show ?thesis
      by (simp add: upd nth_append)
  next
    case False
    with i have "i = length evs"
      by simp
    then show ?thesis
      unfolding upd by (simp add: ev newnode_of_simp)
  qed
  moreover have "nodes (newnode_events (evs @ [ev]) init_globals) 1 = Some 1"
    using IH1 new1 by (simp add: upd)
  ultimately show ?case
    unfolding discovery_order_def by blast
qed

text \<open>
  \<^bold>\<open>C9\<close> (as amended). \<^verbatim>\<open>callback_newnode.ipynb\<close> owns a dictionary, \<^verbatim>\<open>nodes\<close>, that persists
  across the invocations of its callback and carries an invariant of its own: after the
  callback has run on events whose new nodes are distinct and are not the root \<open>1\<close>,
  \<^verbatim>\<open>nodes\<close> holds the root and the new nodes and nothing else, it labels the root \<open>1\<close> and the
  new node of the \<open>i\<close>-th event (counted from \<open>0\<close>) \<open>i + 2\<close>, the order of discovery, and its
  length is the number of events plus one; the graph, \<^verbatim>\<open>card_subtree\<close>, \<^verbatim>\<open>pos\<close> and the problem
  are as they were.
\<close>

theorem nodes_persist_in_discovery_order:
  assumes "distinct (map newnode_of evs)" and "1 \<notin> newnode_of ` set evs"
  shows "dom (nodes (newnode_events evs init_globals)) = insert 1 (newnode_of ` set evs) \<and>
    len (nodes (newnode_events evs init_globals)) = int (length evs) + 1 \<and>
    discovery_order evs (newnode_events evs init_globals) \<and>
    T (newnode_events evs init_globals) = T init_globals \<and>
    card_subtree (newnode_events evs init_globals) = card_subtree init_globals \<and>
    pos (newnode_events evs init_globals) = pos init_globals \<and>
    p (newnode_events evs init_globals) = p init_globals"
proof -
  have "dom (nodes (newnode_events evs init_globals)) = insert 1 (newnode_of ` set evs)"
    by (simp add: dom_nodes_newnode_events init_globals_def)
  with len_nodes_newnode_events [OF assms] discovery_order_newnode_events [OF assms]
    frame_newnode_events [of evs init_globals]
  show ?thesis
    by blast
qed

theorem nodes_persist_in_discovery_order_witness:
  "distinct (map newnode_of [(1, 2, 0), (1, 3, 1), (2, 4, 0)]) \<and>
   1 \<notin> newnode_of ` set [(1, 2, 0), (1, 3, 1), (2, 4, 0)] \<and>
   dom (nodes bb_tree) = {1, 2, 3, 4} \<and> len (nodes bb_tree) = 4 \<and>
   nodes bb_tree 1 = Some 1 \<and> nodes bb_tree 2 = Some 2 \<and> nodes bb_tree 3 = Some 3 \<and>
   nodes bb_tree 4 = Some 4"
proof -
  let ?evs = "[(1, 2, 0), (1, 3, 1), (2, 4, 0)] :: (int \<times> int \<times> int) list"
  have d: "distinct (map newnode_of ?evs)" and one: "1 \<notin> newnode_of ` set ?evs"
    by (simp_all add: newnode_of_simp)
  from nodes_persist_in_discovery_order [OF d one]
  have dom: "dom (nodes bb_tree) = insert 1 (newnode_of ` set ?evs)"
    and len: "len (nodes bb_tree) = int (length ?evs) + 1"
    and ord: "discovery_order ?evs bb_tree"
    unfolding bb_tree_def by blast+
  from ord have root: "nodes bb_tree 1 = Some 1"
    and label: "\<And>i. i < 3 \<Longrightarrow> nodes bb_tree (newnode_of (?evs ! i)) = Some (int i + 2)"
    unfolding discovery_order_def by simp_all
  from label [of 0] label [of 1] label [of 2] root d one dom len show ?thesis
    by (simp add: newnode_of_simp insert_commute)
qed

text \<open>
  The state persists across invocations of the callback: one invocation leaves the globals
  changed, and the label the next invocation gives to node \<open>3\<close> depends on whether node \<open>2\<close>
  was reported before.
\<close>

theorem callback_state_persists_counterexample:
  "newnode_events [(1, 2, 0)] init_globals \<noteq> init_globals \<and>
   nodes (newnode_events [(1, 3, 1)] init_globals) 3 = Some 2 \<and>
   nodes (newnode_events [(1, 3, 1)] (newnode_events [(1, 2, 0)] init_globals)) 3 = Some 3 \<and>
   left (newnode_events [(1, 3, 1)] (newnode_events [(1, 2, 0)] init_globals)) 1 = Some 2"
proof -
  have "left (newnode_events [(1, 2, 0)] init_globals) \<noteq> left init_globals"
    by (simp add: storeBBnode_def init_globals_def Let_def)
  then have "newnode_events [(1, 2, 0)] init_globals \<noteq> init_globals"
    by metis
  then show ?thesis
    by (simp add: storeBBnode_def init_globals_def Let_def len_def)
qed

section \<open>The frame of the callback\<close>

text \<open>
  \<^bold>\<open>C6\<close>. The one callback a notebook registers is \<open>storeBBnode\<close>, by \<^verbatim>\<open>addcbnewnode\<close> in
  \<^verbatim>\<open>callback_newnode.ipynb\<close>. An invocation of \<open>storeBBnode\<close> returns \<open>None\<close> and changes the
  dictionaries \<open>nodes\<close>, \<open>left\<close> and \<open>right\<close> only: the graph \<open>T\<close>, \<open>card_subtree\<close>, \<open>pos\<close> and the
  problem object \<open>p\<close> with its controls and its registered callbacks are as before, and of
  the three dictionaries \<open>nodes\<close> gains the label of \<open>newnode\<close> and one of \<open>left\<close> and \<open>right\<close>
  the entry for \<open>parent\<close>.
\<close>

theorem storeBBnode_frame:
  "map (\<lambda>(name, nb). (name, callbacks (flat_list nb)))
     (filter (\<lambda>(name, nb). callbacks (flat_list nb) \<noteq> []) notebooks) =
     [(''callback_newnode'', [''storeBBnode''])] \<and>
   fst (storeBBnode prob Tree parent newnode branch s) = () \<and>
   snd (storeBBnode prob Tree parent newnode branch s) =
     s\<lparr>nodes := (nodes s)(newnode \<mapsto> len (nodes s) + 1),
       left := if branch = 0 then (left s)(parent \<mapsto> newnode) else left s,
       right := if branch = 0 then right s else (right s)(parent \<mapsto> newnode)\<rparr> \<and>
   T (snd (storeBBnode prob Tree parent newnode branch s)) = T s \<and>
   card_subtree (snd (storeBBnode prob Tree parent newnode branch s)) = card_subtree s \<and>
   pos (snd (storeBBnode prob Tree parent newnode branch s)) = pos s \<and>
   p (snd (storeBBnode prob Tree parent newnode branch s)) = p s"
proof -
  have "map (\<lambda>(name, nb). (name, callbacks (flat_list nb)))
      (filter (\<lambda>(name, nb). callbacks (flat_list nb) \<noteq> []) notebooks) =
      [(''callback_newnode'', [''storeBBnode''])]"
    by (simp add: notebooks_def script_defs)
  then show ?thesis
    by (simp add: storeBBnode_def Let_def)
qed

end
